theory Spec2Isabelle
  imports Main "HOL-Library.Word" "HOL-Library.Monad_Syntax"
begin

unbundle bit_operations_syntax

chapter \<open>hqlockfree: a shallow embedding of the containers\<close>

text \<open>
  The C++ sources are embedded function by function.  \<open>size_t\<close> and \<open>uint64_t\<close> are
  64-bit words, so every \<open>+\<close>, \<open>-\<close>, \<open>*\<close> and shift wraps as the machine operation
  does.  A class is a record of its data members, a member function takes the object and
  returns the updated object.  What C++ leaves undefined (a division by zero, an access
  outside an array, a dangling pointer) is an \<open>error\<close> value of the model, and a loop
  that may spin forever returns \<open>None\<close> where it does.
\<close>

type_synonym size_t = "64 word"
type_synonym uint64_t = "64 word"

datatype error =
    division_by_zero
  | out_of_bounds
  | shift_out_of_range
  | invalid_pointer
  | busy_wait

section \<open>daemon.hpp, daemon.cpp: the callback registry\<close>

text \<open>
  \<open>m_callbacks\<close> is a \<open>std::unordered_map<callback_key_t, std::function<void()>>\<close>:
  a finite map from keys to callbacks.  The type of the callbacks is left open.  The
  worker thread and the mutex are not part of the registry's value; every member function
  below runs under the mutex, hence atomically.
\<close>

type_synonym callback_key_t = uint64_t

record 'cb daemon =
  m_should_run :: bool
  m_callbacks :: "callback_key_t \<rightharpoonup> 'cb"
  m_next_callback :: callback_key_t

definition daemon_ctor :: "'cb daemon" where
  "daemon_ctor = \<lparr>m_should_run = True, m_callbacks = Map.empty, m_next_callback = 0\<rparr>"

definition add_callback :: "'cb \<Rightarrow> 'cb daemon \<Rightarrow> callback_key_t \<times> 'cb daemon" where
  "add_callback func d =
     (let key = m_next_callback d;
          d1 = d\<lparr>m_next_callback := m_next_callback d + 1\<rparr>
      in (key, d1\<lparr>m_callbacks := (m_callbacks d1)(key \<mapsto> func)\<rparr>))"

definition remove_callback :: "callback_key_t \<Rightarrow> 'cb daemon \<Rightarrow> 'cb daemon" where
  "remove_callback key d =
     (if m_callbacks d key = None then d
      else d\<lparr>m_callbacks := (m_callbacks d)(key := None)\<rparr>)"

section \<open>cache_utils.hpp: the false-sharing-aware storage\<close>

definition cache_line_size :: size_t where
  "cache_line_size = 64"

subsection \<open>pow2_factory and log2_factory\<close>

text \<open>
  The loops shift a 64-bit \<open>current\<close> to the left until it passes \<open>value\<close>.  Once the
  only set bit is shifted out, \<open>current\<close> is 0 and stays 0, and the loop never ends:
  not returning is the value \<open>None\<close>.
\<close>

partial_function (option) pow2_lower_loop :: "size_t \<Rightarrow> size_t \<Rightarrow> size_t option" where
  "pow2_lower_loop val current =
     (if current \<le> val then pow2_lower_loop val (push_bit 1 current) else Some current)"

definition pow2_factory_lower :: "size_t \<Rightarrow> size_t option" where
  "pow2_factory_lower val = map_option (drop_bit 1) (pow2_lower_loop val 1)"

partial_function (option) pow2_upper_loop :: "size_t \<Rightarrow> size_t \<Rightarrow> size_t option" where
  "pow2_upper_loop val current =
     (if current < val then pow2_upper_loop val (push_bit 1 current) else Some current)"

definition pow2_factory_upper :: "size_t \<Rightarrow> size_t option" where
  "pow2_factory_upper val = pow2_upper_loop val 1"

partial_function (option) log2_lower_loop :: "size_t \<Rightarrow> size_t \<Rightarrow> size_t \<Rightarrow> size_t option" where
  "log2_lower_loop val current out =
     (if current \<le> val then log2_lower_loop val (push_bit 1 current) (out + 1) else Some out)"

definition log2_factory_lower :: "size_t \<Rightarrow> size_t option" where
  "log2_factory_lower val = map_option (\<lambda>out. out - 1) (log2_lower_loop val 1 0)"

partial_function (option) log2_upper_loop :: "size_t \<Rightarrow> size_t \<Rightarrow> size_t \<Rightarrow> size_t option" where
  "log2_upper_loop val current out =
     (if current < val then log2_upper_loop val (push_bit 1 current) (out + 1) else Some out)"

definition log2_factory_upper :: "size_t \<Rightarrow> size_t option" where
  "log2_factory_upper val = log2_upper_loop val 1 0"

declare pow2_lower_loop.simps [code]
declare pow2_upper_loop.simps [code]
declare log2_lower_loop.simps [code]
declare log2_upper_loop.simps [code]

subsection \<open>elements_per_cache_line\<close>

text \<open>
  The element type \<open>T\<close> enters the index arithmetic through \<open>sizeof(T)\<close> only, which
  is the parameter \<open>sizeof_T\<close> (at least 1 for every C++ type).
\<close>

datatype cache_size_policy = exact | pow2

definition elements_per_cache_line_exact :: "size_t \<Rightarrow> size_t" where
  "elements_per_cache_line_exact sizeof_T =
     (if sizeof_T > cache_line_size then 1 else cache_line_size div sizeof_T)"

fun elements_per_cache_line :: "size_t \<Rightarrow> cache_size_policy \<Rightarrow> size_t option" where
  "elements_per_cache_line sizeof_T exact = Some (elements_per_cache_line_exact sizeof_T)"
| "elements_per_cache_line sizeof_T pow2 =
     pow2_factory_lower (elements_per_cache_line_exact sizeof_T)"

subsection \<open>mod_indexer and div_indexer\<close>

text \<open>
  Each indexer is specialised by the policy: the \<open>exact\<close> one keeps the divisor
  \<open>m_sz\<close>, the \<open>pow2\<close> one keeps a mask \<open>sz - 1\<close> or a shift \<open>log2_factory::lower(sz)\<close>.
  A division by zero and a shift by 64 or more are undefined in C++.
\<close>

datatype mod_indexer = mod_indexer_exact size_t | mod_indexer_pow2 size_t

datatype div_indexer = div_indexer_exact size_t | div_indexer_pow2 size_t

fun mod_indexer_ctor :: "cache_size_policy \<Rightarrow> size_t \<Rightarrow> mod_indexer" where
  "mod_indexer_ctor exact sz = mod_indexer_exact sz"
| "mod_indexer_ctor pow2 sz = mod_indexer_pow2 (sz - 1)"

fun mod_indexer_call :: "mod_indexer \<Rightarrow> size_t \<Rightarrow> error + size_t" where
  "mod_indexer_call (mod_indexer_exact m_sz) index =
     (if m_sz = 0 then Inl division_by_zero else Inr (index mod m_sz))"
| "mod_indexer_call (mod_indexer_pow2 m_mask) index = Inr (index AND m_mask)"

fun div_indexer_ctor :: "cache_size_policy \<Rightarrow> size_t \<Rightarrow> div_indexer option" where
  "div_indexer_ctor exact sz = Some (div_indexer_exact sz)"
| "div_indexer_ctor pow2 sz = map_option div_indexer_pow2 (log2_factory_lower sz)"

fun div_indexer_call :: "div_indexer \<Rightarrow> size_t \<Rightarrow> error + size_t" where
  "div_indexer_call (div_indexer_exact m_sz) index =
     (if m_sz = 0 then Inl division_by_zero else Inr (index div m_sz))"
| "div_indexer_call (div_indexer_pow2 m_shift) index =
     (if 64 \<le> m_shift then Inl shift_out_of_range else Inr (drop_bit (unat m_shift) index))"

subsection \<open>false_sharing_optimized_buffer\<close>

text \<open>
  \<open>m_lines\<close> is the \<open>std::vector\<close> of cache lines, each a \<open>std::array\<close> of
  \<open>elements_per_cache_line\<close> elements.  \<open>line_elements\<close> is the class constant
  \<open>false_sharing_optimized_buffer::cache_line_size\<close> (the number of elements of one
  line, not the 64 bytes of the namespace constant it hides).  The constructor
  value-initialises every element: \<open>dflt\<close> is that value.  Allocation is taken to
  succeed.
\<close>

record 'a false_sharing_optimized_buffer =
  line_elements :: size_t
  m_lines :: "'a list list"
  m_mod_index :: mod_indexer
  m_div_index :: div_indexer
  m_mod_index2 :: mod_indexer

fun calc_min_cache_lines :: "cache_size_policy \<Rightarrow> size_t \<Rightarrow> size_t option" where
  "calc_min_cache_lines exact min_cache_lines = Some min_cache_lines"
| "calc_min_cache_lines pow2 min_cache_lines = pow2_factory_upper min_cache_lines"

definition number_of_cache_lines :: "'a false_sharing_optimized_buffer \<Rightarrow> size_t" where
  "number_of_cache_lines b = word_of_nat (length (m_lines b))"

definition buffer_size :: "'a false_sharing_optimized_buffer \<Rightarrow> size_t" where
  "buffer_size b = number_of_cache_lines b * line_elements b"

definition false_sharing_optimized_buffer_ctor ::
  "cache_size_policy \<Rightarrow> size_t \<Rightarrow> 'a \<Rightarrow> size_t \<Rightarrow> size_t \<Rightarrow>
   'a false_sharing_optimized_buffer option" where
  "false_sharing_optimized_buffer_ctor size_policy sizeof_T dflt minimum_cache_lines
     minimum_elements =
     do {
       per_line \<leftarrow> elements_per_cache_line sizeof_T size_policy;
       min_lines \<leftarrow> calc_min_cache_lines size_policy minimum_cache_lines;
       let lines = replicate
             (unat (max min_lines ((minimum_elements + (per_line - 1)) div per_line)))
             (replicate (unat per_line) dflt);
       let lines_size = (word_of_nat (length lines) :: size_t);
       let mod_index = mod_indexer_ctor size_policy lines_size;
       div_index \<leftarrow> div_indexer_ctor size_policy lines_size;
       let mod_index2 = mod_indexer_ctor size_policy (lines_size * per_line);
       Some \<lparr>line_elements = per_line, m_lines = lines, m_mod_index = mod_index,
             m_div_index = div_index, m_mod_index2 = mod_index2\<rparr>
     }"

text \<open>
  \<open>get(idx)\<close> is \<open>m_lines[m_mod_index(idx)][m_div_index(m_mod_index2(idx))]\<close>.
  \<open>cell\<close> is the pair of subscripts it computes; neither \<open>operator[]\<close> checks its
  subscript, so a subscript outside the vector or the array is undefined.  \<open>get\<close> reads
  through the reference, \<open>put\<close> is the assignment \<open>get(idx) = value\<close>.
\<close>

definition cell :: "'a false_sharing_optimized_buffer \<Rightarrow> size_t \<Rightarrow> error + (size_t \<times> size_t)" where
  "cell b idx =
     (case mod_indexer_call (m_mod_index b) idx of
        Inl e \<Rightarrow> Inl e
      | Inr line \<Rightarrow>
          (case mod_indexer_call (m_mod_index2 b) idx of
             Inl e \<Rightarrow> Inl e
           | Inr flat \<Rightarrow>
               (case div_indexer_call (m_div_index b) flat of
                  Inl e \<Rightarrow> Inl e
                | Inr slot \<Rightarrow>
                    if unat line < length (m_lines b) \<and>
                       unat slot < length (m_lines b ! unat line)
                    then Inr (line, slot) else Inl out_of_bounds)))"

definition get :: "'a false_sharing_optimized_buffer \<Rightarrow> size_t \<Rightarrow> error + 'a" where
  "get b idx =
     (case cell b idx of
        Inl e \<Rightarrow> Inl e
      | Inr (line, slot) \<Rightarrow> Inr (m_lines b ! unat line ! unat slot))"

definition put ::
  "'a false_sharing_optimized_buffer \<Rightarrow> size_t \<Rightarrow> 'a \<Rightarrow> error + 'a false_sharing_optimized_buffer" where
  "put b idx v =
     (case cell b idx of
        Inl e \<Rightarrow> Inl e
      | Inr (line, slot) \<Rightarrow>
          Inr (b\<lparr>m_lines := (m_lines b)[unat line := (m_lines b ! unat line)[unat slot := v]]\<rparr>))"

section \<open>write_confirm.hpp: the reserve/commit barrier\<close>

record write_confirm =
  m_write_head :: uint64_t
  m_read_head :: uint64_t

definition write_confirm_ctor :: write_confirm where
  "write_confirm_ctor = \<lparr>m_write_head = 0, m_read_head = 0\<rparr>"

definition get_write_index :: "write_confirm \<Rightarrow> uint64_t \<times> write_confirm" where
  "get_write_index w = (m_write_head w, w\<lparr>m_write_head := m_write_head w + 1\<rparr>)"

definition get_read_index :: "write_confirm \<Rightarrow> uint64_t" where
  "get_read_index w = m_read_head w"

text \<open>
  \<open>m_read_head.compare_exchange_weak(expected, desired)\<close>: when the counter holds
  \<open>expected\<close> and the attempt does not fail spuriously, it stores \<open>desired\<close> and
  returns true; otherwise it loads the counter into \<open>expected\<close> and returns false.
  The weak form may fail spuriously; \<open>spurious\<close> says whether this attempt does.
\<close>

definition compare_exchange_weak ::
  "bool \<Rightarrow> uint64_t \<Rightarrow> uint64_t \<Rightarrow> write_confirm \<Rightarrow> bool \<times> uint64_t \<times> write_confirm" where
  "compare_exchange_weak spurious expected desired w =
     (if m_read_head w = expected \<and> \<not> spurious
      then (True, expected, w\<lparr>m_read_head := desired\<rparr>)
      else (False, m_read_head w, w))"

text \<open>
  The loop of \<open>confirm_write\<close>, run by one thread while no other thread touches the
  barrier.  The list holds one flag for each attempt that may fail spuriously; after it
  the attempts are exact.  An exact attempt that fails with the counter below \<open>desired\<close>
  resets \<open>expected\<close> and meets the same counter again on every later attempt: the call
  spins until another producer commits, and alone it never returns (\<open>None\<close>).
\<close>

fun confirm_write_loop ::
  "bool list \<Rightarrow> uint64_t \<Rightarrow> uint64_t \<Rightarrow> uint64_t \<Rightarrow> write_confirm \<Rightarrow> write_confirm option" where
  "confirm_write_loop [] written_index desired expected w =
     (case compare_exchange_weak False expected desired w of
        (ok, expected', w') \<Rightarrow>
          if ok then Some w'
          else if expected' \<ge> desired then Some w'
          else None)"
| "confirm_write_loop (spurious # rest) written_index desired expected w =
     (case compare_exchange_weak spurious expected desired w of
        (ok, expected', w') \<Rightarrow>
          if ok then Some w'
          else if expected' \<ge> desired then Some w'
          else confirm_write_loop rest written_index desired written_index w')"

definition confirm_write :: "bool list \<Rightarrow> uint64_t \<Rightarrow> write_confirm \<Rightarrow> write_confirm option" where
  "confirm_write sched written_index w =
     confirm_write_loop sched written_index (written_index + 1) written_index w"

text \<open>
  Sequences of calls on one barrier.  \<open>barrier_run\<close> lists, for every call that
  returns, the call with the barrier before and after it; it stops at a call that does
  not return.
\<close>

datatype barrier_call = Get_write_index | Get_read_index | Confirm_write "bool list" uint64_t

fun barrier_call_step :: "barrier_call \<Rightarrow> write_confirm \<Rightarrow> write_confirm option" where
  "barrier_call_step Get_write_index w = Some (snd (get_write_index w))"
| "barrier_call_step Get_read_index w = Some w"
| "barrier_call_step (Confirm_write sched i) w = confirm_write sched i w"

fun barrier_run ::
  "barrier_call list \<Rightarrow> write_confirm \<Rightarrow> (barrier_call \<times> write_confirm \<times> write_confirm) list" where
  "barrier_run [] w = []"
| "barrier_run (c # cs) w =
     (case barrier_call_step c w of
        None \<Rightarrow> []
      | Some w' \<Rightarrow> (c, w, w') # barrier_run cs w')"

section \<open>spsc_queue.hpp: the single-producer / single-consumer ring\<close>

text \<open>
  The data members of the three rings share their names in the source; the fields of the
  records carry the class as a suffix (\<open>m_tail_spsc\<close> is \<open>spsc_queue::m_tail\<close>), and the
  member functions the class as a prefix.

  \<open>push\<close> waits in \<open>get_free_index\<close> while the ring is full.  Only the consumer ends
  that wait; in a run of whole calls the consumer is not running, so a \<open>push\<close> on a full
  ring is the error \<open>busy_wait\<close>.

  \<open>pop\<close> move-assigns the slot to its argument.  What a moved-from \<open>T\<close> holds depends
  on \<open>T\<close>: \<open>moved_from\<close> gives it (the identity for \<open>int\<close>).
\<close>

record 'a spsc_queue =
  m_buffer_spsc :: "'a false_sharing_optimized_buffer"
  m_private_head :: uint64_t
  m_head :: uint64_t
  m_tail_spsc :: uint64_t
  m_capacity_spsc :: size_t
  m_free_capacity_needed_spsc :: size_t

definition spsc_queue_ctor ::
  "cache_size_policy \<Rightarrow> size_t \<Rightarrow> 'a \<Rightarrow> size_t \<Rightarrow> size_t \<Rightarrow> 'a spsc_queue option" where
  "spsc_queue_ctor size_policy sizeof_T dflt min_cache_lines min_elements =
     do {
       buffer \<leftarrow> false_sharing_optimized_buffer_ctor size_policy sizeof_T dflt
                   min_cache_lines min_elements;
       Some \<lparr>m_buffer_spsc = buffer, m_private_head = 0, m_head = 0, m_tail_spsc = 0,
             m_capacity_spsc = buffer_size buffer,
             m_free_capacity_needed_spsc = buffer_size buffer - 1\<rparr>
     }"

definition spsc_get_free_index :: "'a spsc_queue \<Rightarrow> error + (uint64_t \<times> 'a spsc_queue)" where
  "spsc_get_free_index q =
     (let index = m_private_head q;
          q1 = q\<lparr>m_private_head := m_private_head q + 1\<rparr>
      in if index - m_tail_spsc q1 \<ge> m_free_capacity_needed_spsc q1
         then Inl busy_wait else Inr (index, q1))"

definition spsc_update_read_head :: "uint64_t \<Rightarrow> 'a spsc_queue \<Rightarrow> 'a spsc_queue" where
  "spsc_update_read_head written_index q = q\<lparr>m_head := written_index + 1\<rparr>"

definition spsc_capacity :: "'a spsc_queue \<Rightarrow> size_t" where
  "spsc_capacity q = m_capacity_spsc q"

definition spsc_size :: "'a spsc_queue \<Rightarrow> size_t" where
  "spsc_size q = m_head q - m_tail_spsc q"

definition spsc_push :: "'a \<Rightarrow> 'a spsc_queue \<Rightarrow> error + 'a spsc_queue" where
  "spsc_push v q =
     (case spsc_get_free_index q of
        Inl e \<Rightarrow> Inl e
      | Inr (index, q1) \<Rightarrow>
          (case put (m_buffer_spsc q1) index v of
             Inl e \<Rightarrow> Inl e
           | Inr buffer \<Rightarrow> Inr (spsc_update_read_head index (q1\<lparr>m_buffer_spsc := buffer\<rparr>))))"

definition spsc_pop ::
  "('a \<Rightarrow> 'a) \<Rightarrow> 'a \<Rightarrow> 'a spsc_queue \<Rightarrow> error + (bool \<times> 'a \<times> 'a spsc_queue)" where
  "spsc_pop moved_from out q =
     (let index = m_tail_spsc q;
          head = m_head q
      in if index \<ge> head then Inr (False, out, q)
         else
           (case get (m_buffer_spsc q) index of
              Inl e \<Rightarrow> Inl e
            | Inr v \<Rightarrow>
                (case put (m_buffer_spsc q) index (moved_from v) of
                   Inl e \<Rightarrow> Inl e
                 | Inr buffer \<Rightarrow>
                     Inr (True, v, q\<lparr>m_buffer_spsc := buffer, m_tail_spsc := index + 1\<rparr>))))"

text \<open>
  Sequences of calls on one ring.  \<open>out\<close> is the caller's variable handed to every
  \<open>pop\<close>; the run returns the values the successful pops stored in it, in order.
\<close>

datatype 'a ring_call = Push 'a | Pop

fun spsc_run ::
  "('a \<Rightarrow> 'a) \<Rightarrow> 'a ring_call list \<Rightarrow> 'a \<Rightarrow> 'a spsc_queue \<Rightarrow>
   error + ('a list \<times> 'a spsc_queue)" where
  "spsc_run moved_from [] out q = Inr ([], q)"
| "spsc_run moved_from (Push v # cs) out q =
     (case spsc_push v q of
        Inl e \<Rightarrow> Inl e
      | Inr q1 \<Rightarrow> spsc_run moved_from cs out q1)"
| "spsc_run moved_from (Pop # cs) out q =
     (case spsc_pop moved_from out q of
        Inl e \<Rightarrow> Inl e
      | Inr (ok, out1, q1) \<Rightarrow>
          (case spsc_run moved_from cs out1 q1 of
             Inl e \<Rightarrow> Inl e
           | Inr (vs, q2) \<Rightarrow> Inr (if ok then out1 # vs else vs, q2)))"

section \<open>mpsc_queue.hpp: the multi-producer / single-consumer ring\<close>

record 'a mpsc_queue =
  m_buffer_mpsc :: "'a false_sharing_optimized_buffer"
  m_write_confirm :: write_confirm
  m_tail_mpsc :: uint64_t
  m_capacity_mpsc :: size_t
  m_free_capacity_needed_mpsc :: size_t

definition mpsc_queue_ctor ::
  "cache_size_policy \<Rightarrow> size_t \<Rightarrow> 'a \<Rightarrow> size_t \<Rightarrow> size_t \<Rightarrow> 'a mpsc_queue option" where
  "mpsc_queue_ctor size_policy sizeof_T dflt min_cache_lines min_elements =
     do {
       buffer \<leftarrow> false_sharing_optimized_buffer_ctor size_policy sizeof_T dflt
                   min_cache_lines min_elements;
       Some \<lparr>m_buffer_mpsc = buffer, m_write_confirm = write_confirm_ctor, m_tail_mpsc = 0,
             m_capacity_mpsc = buffer_size buffer,
             m_free_capacity_needed_mpsc = buffer_size buffer - 1\<rparr>
     }"

definition mpsc_get_free_index :: "'a mpsc_queue \<Rightarrow> error + (uint64_t \<times> 'a mpsc_queue)" where
  "mpsc_get_free_index q =
     (case get_write_index (m_write_confirm q) of
        (index, w) \<Rightarrow>
          if index - m_tail_mpsc q \<ge> m_free_capacity_needed_mpsc q
          then Inl busy_wait else Inr (index, q\<lparr>m_write_confirm := w\<rparr>))"

definition mpsc_update_read_head ::
  "bool list \<Rightarrow> uint64_t \<Rightarrow> 'a mpsc_queue \<Rightarrow> error + 'a mpsc_queue" where
  "mpsc_update_read_head sched written_index q =
     (case confirm_write sched written_index (m_write_confirm q) of
        None \<Rightarrow> Inl busy_wait
      | Some w \<Rightarrow> Inr (q\<lparr>m_write_confirm := w\<rparr>))"

definition mpsc_size :: "'a mpsc_queue \<Rightarrow> size_t" where
  "mpsc_size q = get_read_index (m_write_confirm q) - m_tail_mpsc q"

definition mpsc_capacity :: "'a mpsc_queue \<Rightarrow> size_t" where
  "mpsc_capacity q = m_capacity_mpsc q"

definition mpsc_push :: "bool list \<Rightarrow> 'a \<Rightarrow> 'a mpsc_queue \<Rightarrow> error + 'a mpsc_queue" where
  "mpsc_push sched v q =
     (case mpsc_get_free_index q of
        Inl e \<Rightarrow> Inl e
      | Inr (index, q1) \<Rightarrow>
          (case put (m_buffer_mpsc q1) index v of
             Inl e \<Rightarrow> Inl e
           | Inr buffer \<Rightarrow> mpsc_update_read_head sched index (q1\<lparr>m_buffer_mpsc := buffer\<rparr>)))"

definition mpsc_pop ::
  "('a \<Rightarrow> 'a) \<Rightarrow> 'a \<Rightarrow> 'a mpsc_queue \<Rightarrow> error + (bool \<times> 'a \<times> 'a mpsc_queue)" where
  "mpsc_pop moved_from out q =
     (let read_head = get_read_index (m_write_confirm q);
          tail = m_tail_mpsc q
      in if read_head \<le> tail then Inr (False, out, q)
         else
           (case get (m_buffer_mpsc q) tail of
              Inl e \<Rightarrow> Inl e
            | Inr v \<Rightarrow>
                (case put (m_buffer_mpsc q) tail (moved_from v) of
                   Inl e \<Rightarrow> Inl e
                 | Inr buffer \<Rightarrow>
                     Inr (True, v, q\<lparr>m_buffer_mpsc := buffer, m_tail_mpsc := tail + 1\<rparr>))))"

section \<open>The free store\<close>

text \<open>
  Objects made by \<open>std::make_unique\<close> live in a store: a map from addresses to
  objects.  A new object gets an address that was never used; destroying the owning
  \<open>unique_ptr\<close> frees the address.  A raw pointer is an address, valid while the
  address is allocated.
\<close>

record 'v store =
  cells :: "nat \<rightharpoonup> 'v"
  next_free :: nat

definition store_empty :: "'v store" where
  "store_empty = \<lparr>cells = Map.empty, next_free = 0\<rparr>"

definition store_new :: "'v \<Rightarrow> 'v store \<Rightarrow> nat \<times> 'v store" where
  "store_new v st =
     (next_free st, st\<lparr>cells := (cells st)(next_free st \<mapsto> v), next_free := Suc (next_free st)\<rparr>)"

definition store_free :: "nat \<Rightarrow> 'v store \<Rightarrow> 'v store" where
  "store_free p st = st\<lparr>cells := (cells st)(p := None)\<rparr>"

section \<open>mpmc_fanout.hpp: the fan-out ring\<close>

text \<open>
  A \<open>subscription_handle\<close> refers to the buffer and the barrier of its queue; in the
  model its member functions take the queue and the handle's address.
  \<open>m_subscriptions\<close> is the vector of owning pointers, \<open>m_handles\<close> the store the
  handles live in.  The constructor registers the callback \<open>update_min_tail\<close> with the
  daemon; \<open>func\<close> stands for that closure.
\<close>

record subscription_handle =
  m_tail_handle :: uint64_t
  m_subscribed :: bool

record 'a mpmc_fanout =
  m_buffer_fanout :: "'a false_sharing_optimized_buffer"
  m_write_confirmer :: write_confirm
  m_min_tail :: uint64_t
  m_capacity_fanout :: size_t
  m_free_capacity_needed_fanout :: size_t
  m_subscriptions :: "nat list"
  m_handles :: "subscription_handle store"
  m_callback_key :: callback_key_t

definition subscription_handle_ctor :: "write_confirm \<Rightarrow> subscription_handle" where
  "subscription_handle_ctor write_confirmer =
     \<lparr>m_tail_handle = get_read_index write_confirmer, m_subscribed = True\<rparr>"

definition get_tail :: "subscription_handle \<Rightarrow> uint64_t" where
  "get_tail h = m_tail_handle h"

definition subscribed :: "subscription_handle \<Rightarrow> bool" where
  "subscribed h = m_subscribed h"

definition unsubscribe :: "nat \<Rightarrow> 'a mpmc_fanout \<Rightarrow> error + 'a mpmc_fanout" where
  "unsubscribe p q =
     (case cells (m_handles q) p of
        None \<Rightarrow> Inl invalid_pointer
      | Some h \<Rightarrow>
          Inr (q\<lparr>m_handles := (m_handles q)
                  \<lparr>cells := (cells (m_handles q))(p \<mapsto> h\<lparr>m_subscribed := False\<rparr>)\<rparr>\<rparr>))"

definition subscription_handle_pop ::
  "nat \<Rightarrow> 'a \<Rightarrow> 'a mpmc_fanout \<Rightarrow> error + (bool \<times> 'a \<times> 'a mpmc_fanout)" where
  "subscription_handle_pop p out q =
     (case cells (m_handles q) p of
        None \<Rightarrow> Inl invalid_pointer
      | Some h \<Rightarrow>
          (let read_head = get_read_index (m_write_confirmer q);
               tail = m_tail_handle h
           in if read_head \<le> tail then Inr (False, out, q)
              else
                (case get (m_buffer_fanout q) tail of
                   Inl e \<Rightarrow> Inl e
                 | Inr v \<Rightarrow>
                     Inr (True, v,
                          q\<lparr>m_handles := (m_handles q)
                              \<lparr>cells := (cells (m_handles q))
                                 (p \<mapsto> h\<lparr>m_tail_handle := tail + 1\<rparr>)\<rparr>\<rparr>))))"

text \<open>
  The walk of \<open>update_min_tail\<close> over \<open>m_subscriptions\<close>: a live handle lowers
  \<open>min_tail\<close> to its tail and stays, a retired one is erased from the vector, which
  destroys its \<open>unique_ptr\<close> and with it the handle.  The result is the final
  \<open>min_tail\<close>, the vector that is left and the store.
\<close>

fun update_min_tail_loop ::
  "nat list \<Rightarrow> uint64_t \<Rightarrow> subscription_handle store \<Rightarrow>
   error + (uint64_t \<times> nat list \<times> subscription_handle store)" where
  "update_min_tail_loop [] min_tail st = Inr (min_tail, [], st)"
| "update_min_tail_loop (p # rest) min_tail st =
     (case cells st p of
        None \<Rightarrow> Inl invalid_pointer
      | Some h \<Rightarrow>
          if subscribed h
          then (case update_min_tail_loop rest (min min_tail (get_tail h)) st of
                  Inl e \<Rightarrow> Inl e
                | Inr (m, kept, st1) \<Rightarrow> Inr (m, p # kept, st1))
          else update_min_tail_loop rest min_tail (store_free p st))"

definition update_min_tail :: "'a mpmc_fanout \<Rightarrow> error + 'a mpmc_fanout" where
  "update_min_tail q =
     (case update_min_tail_loop (m_subscriptions q) (get_read_index (m_write_confirmer q))
             (m_handles q) of
        Inl e \<Rightarrow> Inl e
      | Inr (min_tail, kept, st) \<Rightarrow>
          Inr (q\<lparr>m_subscriptions := kept, m_handles := st, m_min_tail := min_tail\<rparr>))"

definition mpmc_get_free_index :: "'a mpmc_fanout \<Rightarrow> error + (uint64_t \<times> 'a mpmc_fanout)" where
  "mpmc_get_free_index q =
     (case get_write_index (m_write_confirmer q) of
        (index, w) \<Rightarrow>
          if index - m_min_tail q \<ge> m_free_capacity_needed_fanout q
          then Inl busy_wait else Inr (index, q\<lparr>m_write_confirmer := w\<rparr>))"

definition mpmc_update_read_head ::
  "bool list \<Rightarrow> uint64_t \<Rightarrow> 'a mpmc_fanout \<Rightarrow> error + 'a mpmc_fanout" where
  "mpmc_update_read_head sched written_index q =
     (case confirm_write sched written_index (m_write_confirmer q) of
        None \<Rightarrow> Inl busy_wait
      | Some w \<Rightarrow> Inr (q\<lparr>m_write_confirmer := w\<rparr>))"

definition mpmc_fanout_ctor ::
  "cache_size_policy \<Rightarrow> size_t \<Rightarrow> 'a \<Rightarrow> size_t \<Rightarrow> size_t \<Rightarrow> 'cb \<Rightarrow> 'cb daemon \<Rightarrow>
   ('a mpmc_fanout \<times> 'cb daemon) option" where
  "mpmc_fanout_ctor size_policy sizeof_T dflt min_cache_lines min_elements func d =
     do {
       buffer \<leftarrow> false_sharing_optimized_buffer_ctor size_policy sizeof_T dflt
                   min_cache_lines min_elements;
       let (key, d1) = add_callback func d;
       Some (\<lparr>m_buffer_fanout = buffer, m_write_confirmer = write_confirm_ctor,
              m_min_tail = 0, m_capacity_fanout = buffer_size buffer,
              m_free_capacity_needed_fanout = buffer_size buffer - 1,
              m_subscriptions = [], m_handles = store_empty, m_callback_key = key\<rparr>, d1)
     }"

definition mpmc_fanout_dtor :: "'a mpmc_fanout \<Rightarrow> 'cb daemon \<Rightarrow> 'cb daemon" where
  "mpmc_fanout_dtor q d = remove_callback (m_callback_key q) d"

definition subscribe :: "'a mpmc_fanout \<Rightarrow> nat \<times> 'a mpmc_fanout" where
  "subscribe q =
     (case store_new (subscription_handle_ctor (m_write_confirmer q)) (m_handles q) of
        (p, st) \<Rightarrow> (p, q\<lparr>m_handles := st, m_subscriptions := m_subscriptions q @ [p]\<rparr>))"

definition mpmc_size :: "'a mpmc_fanout \<Rightarrow> size_t" where
  "mpmc_size q = get_read_index (m_write_confirmer q) - m_min_tail q"

definition mpmc_capacity :: "'a mpmc_fanout \<Rightarrow> size_t" where
  "mpmc_capacity q = m_capacity_fanout q"

definition mpmc_push :: "bool list \<Rightarrow> 'a \<Rightarrow> 'a mpmc_fanout \<Rightarrow> error + 'a mpmc_fanout" where
  "mpmc_push sched v q =
     (case mpmc_get_free_index q of
        Inl e \<Rightarrow> Inl e
      | Inr (index, q1) \<Rightarrow>
          (case put (m_buffer_fanout q1) index v of
             Inl e \<Rightarrow> Inl e
           | Inr buffer \<Rightarrow> mpmc_update_read_head sched index (q1\<lparr>m_buffer_fanout := buffer\<rparr>)))"

text \<open>
  Sequences of calls on one fan-out queue: pushes, subscriptions, calls through a handle
  pointer and passes of the daemon callback, each run to its end before the next starts.
  \<open>out\<close> is the caller's variable handed to every \<open>pop\<close>; the run returns what each
  call returned.
\<close>

datatype 'a fanout_call =
  Fanout_push "bool list" 'a | Subscribe | Unsubscribe nat | Handle_pop nat | Update_min_tail

datatype 'a fanout_event =
  Pushed | Subscribed nat | Unsubscribed | Popped bool 'a | Min_tail_updated

fun fanout_step ::
  "'a fanout_call \<Rightarrow> 'a \<Rightarrow> 'a mpmc_fanout \<Rightarrow> error + ('a fanout_event \<times> 'a \<times> 'a mpmc_fanout)" where
  "fanout_step (Fanout_push sched v) out q =
     (case mpmc_push sched v q of Inl e \<Rightarrow> Inl e | Inr q1 \<Rightarrow> Inr (Pushed, out, q1))"
| "fanout_step Subscribe out q =
     (case subscribe q of (p, q1) \<Rightarrow> Inr (Subscribed p, out, q1))"
| "fanout_step (Unsubscribe p) out q =
     (case unsubscribe p q of Inl e \<Rightarrow> Inl e | Inr q1 \<Rightarrow> Inr (Unsubscribed, out, q1))"
| "fanout_step (Handle_pop p) out q =
     (case subscription_handle_pop p out q of
        Inl e \<Rightarrow> Inl e
      | Inr (ok, out1, q1) \<Rightarrow> Inr (Popped ok out1, out1, q1))"
| "fanout_step Update_min_tail out q =
     (case update_min_tail q of Inl e \<Rightarrow> Inl e | Inr q1 \<Rightarrow> Inr (Min_tail_updated, out, q1))"

fun fanout_run ::
  "'a fanout_call list \<Rightarrow> 'a \<Rightarrow> 'a mpmc_fanout \<Rightarrow> error + ('a fanout_event list \<times> 'a mpmc_fanout)" where
  "fanout_run [] out q = Inr ([], q)"
| "fanout_run (c # cs) out q =
     (case fanout_step c out q of
        Inl e \<Rightarrow> Inl e
      | Inr (ev, out1, q1) \<Rightarrow>
          (case fanout_run cs out1 q1 of
             Inl e \<Rightarrow> Inl e
           | Inr (evs, q2) \<Rightarrow> Inr (ev # evs, q2)))"

section \<open>spmc_push_vec.hpp: the append-only vector\<close>

subsection \<open>The allocator\<close>

text \<open>
  \<open>operator new\<close> returns or throws \<open>std::bad_alloc\<close>; which of the two depends on
  the heap of the whole program.  The model takes it from a schedule, the outcomes of
  the allocations to come, \<open>True\<close> for one that throws; past the end of the schedule
  every allocation succeeds.
\<close>

fun allocate :: "bool list \<Rightarrow> bool \<times> bool list" where
  "allocate [] = (True, [])"
| "allocate (fails # rest) = (\<not> fails, rest)"

subsection \<open>std::vector\<close>

text \<open>
  A \<open>std::vector<T>\<close> is its elements and its capacity.  \<open>max_size()\<close> is a constant
  of the implementation and of \<open>T\<close> (\<open>PTRDIFF_MAX / sizeof(T)\<close> in libstdc++): the
  parameter \<open>max_size\<close>.  \<open>reserve\<close>, \<open>push_back\<close> and \<open>resize\<close> throw
  \<open>std::length_error\<close> when they would need more than \<open>max_size()\<close> elements and
  \<open>std::bad_alloc\<close> when their allocation fails, and then leave the vector as it was.
  A vector that reallocates on its own takes room for \<open>size() + max(size(), n)\<close>
  elements, at most \<open>max_size()\<close>, where \<open>n\<close> is the number of elements it adds (the
  policy of libstdc++).  The constructors of \<open>T\<close> are taken not to throw.
\<close>

datatype exception = runtime_error string | length_error | bad_alloc

record 'a vector =
  elems :: "'a list"
  cap :: size_t

type_synonym 'a vector_call = "'a vector \<Rightarrow> bool list \<Rightarrow> (exception + 'a vector) \<times> bool list"

definition vector_ctor :: "'a vector" where
  "vector_ctor = \<lparr>elems = [], cap = 0\<rparr>"

definition vector_size :: "'a vector \<Rightarrow> size_t" where
  "vector_size v = word_of_nat (length (elems v))"

text \<open>The copy constructor; the caller accounts for its allocation.\<close>

definition vector_copy :: "'a vector \<Rightarrow> 'a vector" where
  "vector_copy v = \<lparr>elems = elems v, cap = vector_size v\<rparr>"

definition grown_capacity :: "size_t \<Rightarrow> nat \<Rightarrow> nat \<Rightarrow> size_t" where
  "grown_capacity max_size sz n = word_of_nat (min (sz + max sz n) (unat max_size))"

definition vector_reserve :: "size_t \<Rightarrow> size_t \<Rightarrow> 'a vector_call" where
  "vector_reserve max_size n v allocs =
     (if max_size < n then (Inl length_error, allocs)
      else if cap v < n
      then (case allocate allocs of
              (True, rest) \<Rightarrow> (Inr (v\<lparr>cap := n\<rparr>), rest)
            | (False, rest) \<Rightarrow> (Inl bad_alloc, rest))
      else (Inr v, allocs))"

definition vector_push_back :: "size_t \<Rightarrow> 'a \<Rightarrow> 'a vector_call" where
  "vector_push_back max_size x v allocs =
     (if length (elems v) < unat (cap v) then (Inr (v\<lparr>elems := elems v @ [x]\<rparr>), allocs)
      else if unat max_size - length (elems v) < 1 then (Inl length_error, allocs)
      else (case allocate allocs of
              (True, rest) \<Rightarrow>
                (Inr \<lparr>elems = elems v @ [x],
                      cap = grown_capacity max_size (length (elems v)) 1\<rparr>, rest)
            | (False, rest) \<Rightarrow> (Inl bad_alloc, rest)))"

definition vector_resize :: "size_t \<Rightarrow> 'a \<Rightarrow> size_t \<Rightarrow> 'a vector_call" where
  "vector_resize max_size dflt n v allocs =
     (if unat n \<le> length (elems v) then (Inr (v\<lparr>elems := take (unat n) (elems v)\<rparr>), allocs)
      else if unat n \<le> unat (cap v)
      then (Inr (v\<lparr>elems := elems v @ replicate (unat n - length (elems v)) dflt\<rparr>), allocs)
      else if unat max_size - length (elems v) < unat n - length (elems v)
      then (Inl length_error, allocs)
      else (case allocate allocs of
              (True, rest) \<Rightarrow>
                (Inr \<lparr>elems = elems v @ replicate (unat n - length (elems v)) dflt,
                      cap = grown_capacity max_size (length (elems v))
                              (unat n - length (elems v))\<rparr>, rest)
            | (False, rest) \<Rightarrow> (Inl bad_alloc, rest)))"

subsection \<open>spmc_push_vec\<close>

text \<open>
  \<open>m_old_vecs\<close> is the vector of owning pointers, \<open>m_current_vec\<close> the raw pointer
  to the active vector (\<open>None\<close> is \<open>nullptr\<close>), \<open>m_size\<close> the published size.
  \<open>m_vecs\<close> is the store the vectors live in and \<open>m_allocs\<close> the schedule of the
  allocator; the two are the heap around the object, not members of the class.

  A member function returns \<open>Ok\<close> with the object, or \<open>Throws\<close> with the exception and
  the object as the exception leaves it, or \<open>Undefined\<close> where C++ gives the call no
  meaning.
\<close>

datatype 's outcome = Ok 's | Throws exception 's | Undefined error

record 'a spmc_push_vec =
  m_old_vecs :: "nat list"
  m_current_vec :: "nat option"
  m_size :: size_t
  m_vecs :: "'a vector store"
  m_allocs :: "bool list"

text \<open>
  \<open>create_new_vector\<close> allocates the copy (\<open>std::make_unique\<close>, the copy constructor)
  and may allocate a longer pointer array (\<open>emplace_back\<close>).  When one of these
  allocations fails, the copy is destroyed again and \<open>m_old_vecs\<close> is as before; one
  entry of the schedule decides for them together.
\<close>

definition create_new_vector ::
  "'a vector \<Rightarrow> 'a spmc_push_vec \<Rightarrow> (exception + nat) \<times> 'a spmc_push_vec" where
  "create_new_vector previous s =
     (case allocate (m_allocs s) of
        (False, rest) \<Rightarrow> (Inl bad_alloc, s\<lparr>m_allocs := rest\<rparr>)
      | (True, rest) \<Rightarrow>
          (case store_new (vector_copy previous) (m_vecs s) of
             (p, st) \<Rightarrow>
               (Inr p, s\<lparr>m_vecs := st, m_old_vecs := m_old_vecs s @ [p], m_allocs := rest\<rparr>)))"

definition get_current_vec :: "'a spmc_push_vec \<Rightarrow> error + 'a vector" where
  "get_current_vec s =
     (case m_current_vec s of
        None \<Rightarrow> Inl invalid_pointer
      | Some p \<Rightarrow>
          (case cells (m_vecs s) p of
             None \<Rightarrow> Inl invalid_pointer
           | Some v \<Rightarrow> Inr v))"

text \<open>
  A member function of \<open>std::vector\<close> applied in place, to the vector at an address
  and to the active vector.
\<close>

definition on_vec :: "nat \<Rightarrow> 'a vector_call \<Rightarrow> 'a spmc_push_vec \<Rightarrow> 'a spmc_push_vec outcome" where
  "on_vec p f s =
     (case cells (m_vecs s) p of
        None \<Rightarrow> Undefined invalid_pointer
      | Some v \<Rightarrow>
          (case f v (m_allocs s) of
             (Inl e, rest) \<Rightarrow> Throws e (s\<lparr>m_allocs := rest\<rparr>)
           | (Inr v', rest) \<Rightarrow>
               Ok (s\<lparr>m_vecs := (m_vecs s)\<lparr>cells := (cells (m_vecs s))(p \<mapsto> v')\<rparr>,
                     m_allocs := rest\<rparr>)))"

definition on_current_vec :: "'a vector_call \<Rightarrow> 'a spmc_push_vec \<Rightarrow> 'a spmc_push_vec outcome" where
  "on_current_vec f s =
     (case m_current_vec s of
        None \<Rightarrow> Undefined invalid_pointer
      | Some p \<Rightarrow> on_vec p f s)"

text \<open>
  The constructor: \<open>m_current_vec(create_new_vector())\<close>, then
  \<open>get_current_vec().reserve(initial_capacity)\<close>.  \<open>allocs\<close> is the schedule of the
  allocator at that moment.  A constructor that throws leaves no object.
\<close>

definition spmc_push_vec_ctor :: "size_t \<Rightarrow> bool list \<Rightarrow> size_t \<Rightarrow> 'a spmc_push_vec outcome" where
  "spmc_push_vec_ctor max_size allocs initial_capacity =
     (case create_new_vector vector_ctor
             \<lparr>m_old_vecs = [], m_current_vec = None, m_size = 0, m_vecs = store_empty,
              m_allocs = allocs\<rparr> of
        (Inl e, s) \<Rightarrow> Throws e s
      | (Inr p, s) \<Rightarrow>
          on_current_vec (vector_reserve max_size initial_capacity) (s\<lparr>m_current_vec := Some p\<rparr>))"

definition capacity :: "'a spmc_push_vec \<Rightarrow> error + size_t" where
  "capacity s = (case get_current_vec s of Inl e \<Rightarrow> Inl e | Inr v \<Rightarrow> Inr (cap v))"

definition spmc_size :: "'a spmc_push_vec \<Rightarrow> size_t" where
  "spmc_size s = m_size s"

definition reserve :: "size_t \<Rightarrow> size_t \<Rightarrow> 'a spmc_push_vec \<Rightarrow> 'a spmc_push_vec outcome" where
  "reserve max_size elements s =
     (case capacity s of
        Inl e \<Rightarrow> Undefined e
      | Inr c \<Rightarrow>
          if c < elements
          then (case get_current_vec s of
                  Inl e \<Rightarrow> Undefined e
                | Inr current \<Rightarrow>
                    (case create_new_vector current s of
                       (Inl e, s1) \<Rightarrow> Throws e s1
                     | (Inr new_vec, s1) \<Rightarrow>
                         (case on_vec new_vec (vector_reserve max_size elements) s1 of
                            Ok s2 \<Rightarrow> Ok (s2\<lparr>m_current_vec := Some new_vec\<rparr>)
                          | other \<Rightarrow> other)))
          else Ok s)"

definition drop_old :: "'a spmc_push_vec \<Rightarrow> 'a spmc_push_vec outcome" where
  "drop_old s =
     (if m_old_vecs s = [] then Undefined out_of_bounds
      else
        (let current = last (m_old_vecs s);
             dropped = butlast (m_old_vecs s)
         in Ok (s\<lparr>m_old_vecs := [current],
                  m_vecs := (m_vecs s)
                    \<lparr>cells := (\<lambda>p. if p \<in> set dropped then None else cells (m_vecs s) p)\<rparr>\<rparr>)))"

definition resize ::
  "size_t \<Rightarrow> 'a \<Rightarrow> size_t \<Rightarrow> 'a spmc_push_vec \<Rightarrow> 'a spmc_push_vec outcome" where
  "resize max_size dflt elements s =
     (if elements < spmc_size s
      then Throws (runtime_error ''spmc_push_vec::resize - cannot shrink'') s
      else
        (case reserve max_size elements s of
           Ok s1 \<Rightarrow>
             (case on_current_vec (vector_resize max_size dflt elements) s1 of
                Ok s2 \<Rightarrow> Ok (s2\<lparr>m_size := elements\<rparr>)
              | other \<Rightarrow> other)
         | other \<Rightarrow> other))"

definition push_back :: "size_t \<Rightarrow> 'a \<Rightarrow> 'a spmc_push_vec \<Rightarrow> 'a spmc_push_vec outcome" where
  "push_back max_size element s =
     (let current_size = spmc_size s in
      case capacity s of
        Inl e \<Rightarrow> Undefined e
      | Inr c \<Rightarrow>
          (case (if current_size \<ge> c then reserve max_size (c * 2) s else Ok s) of
             Ok s1 \<Rightarrow>
               (case on_current_vec (vector_push_back max_size element) s1 of
                  Ok s2 \<Rightarrow> Ok (s2\<lparr>m_size := current_size + 1\<rparr>)
                | other \<Rightarrow> other)
           | other \<Rightarrow> other))"

text \<open>\<open>emplace_back(args...)\<close> appends the element constructed from its arguments.\<close>

definition emplace_back :: "size_t \<Rightarrow> 'a \<Rightarrow> 'a spmc_push_vec \<Rightarrow> 'a spmc_push_vec outcome" where
  "emplace_back max_size element s = push_back max_size element s"

text \<open>\<open>operator[]\<close> reads the active vector without a bounds check.\<close>

definition at_index :: "'a spmc_push_vec \<Rightarrow> size_t \<Rightarrow> error + 'a" where
  "at_index s idx =
     (case get_current_vec s of
        Inl e \<Rightarrow> Inl e
      | Inr v \<Rightarrow>
          if unat idx < length (elems v) then Inr (elems v ! unat idx) else Inl out_of_bounds)"

text \<open>
  The states of a vector: what the constructor returns, and what a producer operation
  leaves behind, by returning or by throwing an exception that the caller catches.
\<close>

datatype 'a vec_call =
  Push_back 'a | Emplace_back 'a | Reserve size_t | Resize size_t | Drop_old

fun vec_call_step ::
  "size_t \<Rightarrow> 'a \<Rightarrow> 'a vec_call \<Rightarrow> 'a spmc_push_vec \<Rightarrow> 'a spmc_push_vec outcome" where
  "vec_call_step max_size dflt (Push_back x) s = push_back max_size x s"
| "vec_call_step max_size dflt (Emplace_back x) s = emplace_back max_size x s"
| "vec_call_step max_size dflt (Reserve n) s = reserve max_size n s"
| "vec_call_step max_size dflt (Resize n) s = resize max_size dflt n s"
| "vec_call_step max_size dflt Drop_old s = drop_old s"

inductive reachable_vec :: "size_t \<Rightarrow> 'a \<Rightarrow> 'a spmc_push_vec \<Rightarrow> bool"
  for max_size :: size_t and dflt :: 'a where
  constructed:
    "spmc_push_vec_ctor max_size allocs initial_capacity = Ok s \<Longrightarrow> reachable_vec max_size dflt s"
| returned:
    "reachable_vec max_size dflt s \<Longrightarrow> vec_call_step max_size dflt c s = Ok s' \<Longrightarrow>
     reachable_vec max_size dflt s'"
| thrown:
    "reachable_vec max_size dflt s \<Longrightarrow> vec_call_step max_size dflt c s = Throws e s' \<Longrightarrow>
     reachable_vec max_size dflt s'"


section \<open>Notions used in the statements\<close>

text \<open>
  \<open>buffer_shape size_policy M K b\<close>: the buffer \<open>b\<close> has the layout that the
  constructor gives to \<open>M\<close> cache lines of \<open>K\<close> elements under the policy: the lines,
  their length, and the three indexers made from \<open>M\<close>, \<open>M\<close> and \<open>M * K\<close>.  The
  constructor establishes it and \<open>put\<close> keeps it.
\<close>

definition buffer_shape ::
  "cache_size_policy \<Rightarrow> size_t \<Rightarrow> size_t \<Rightarrow> 'a false_sharing_optimized_buffer \<Rightarrow> bool" where
  "buffer_shape size_policy M K b \<longleftrightarrow>
     line_elements b = K \<and>
     length (m_lines b) = unat M \<and>
     list_all (\<lambda>line. length line = unat K) (m_lines b) \<and>
     m_mod_index b = mod_indexer_ctor size_policy M \<and>
     div_indexer_ctor size_policy M = Some (m_div_index b) \<and>
     m_mod_index2 b = mod_indexer_ctor size_policy (M * K)"

text \<open>
  \<open>regular_buffer size_policy M K b\<close>: \<open>b\<close> has that layout with at least one line,
  at least one element per line and a capacity \<open>M * K\<close> that fits 64 bits, and under
  \<open>pow2\<close> both \<open>M\<close> and \<open>K\<close> are powers of two, as the masks and the shift of the
  \<open>pow2\<close> indexers need.
\<close>

definition regular_buffer ::
  "cache_size_policy \<Rightarrow> size_t \<Rightarrow> size_t \<Rightarrow> 'a false_sharing_optimized_buffer \<Rightarrow> bool" where
  "regular_buffer size_policy M K b \<longleftrightarrow>
     buffer_shape size_policy M K b \<and> 0 < M \<and> 0 < K \<and> unat M * unat K < 2 ^ 64 \<and>
     (size_policy = pow2 \<longrightarrow> (\<exists>m k. M = 2 ^ m \<and> K = 2 ^ k))"

text \<open>
  The ring as the specification describes it: a queue of the elements pushed and not
  yet popped.  \<open>fifo_pops calls pending\<close> are the values that the successful pops of
  \<open>calls\<close> return, \<open>never_full C calls n\<close> says that, starting with \<open>n\<close> elements, the
  number of elements pushed and not yet popped stays below \<open>C\<close>.
\<close>

fun fifo_pops :: "'a ring_call list \<Rightarrow> 'a list \<Rightarrow> 'a list" where
  "fifo_pops [] pending = []"
| "fifo_pops (Push v # cs) pending = fifo_pops cs (pending @ [v])"
| "fifo_pops (Pop # cs) [] = fifo_pops cs []"
| "fifo_pops (Pop # cs) (p # pending) = p # fifo_pops cs pending"

fun never_full :: "nat \<Rightarrow> 'a ring_call list \<Rightarrow> nat \<Rightarrow> bool" where
  "never_full C [] n = True"
| "never_full C (Push v # cs) n = (n + 1 < C \<and> never_full C cs (n + 1))"
| "never_full C (Pop # cs) n = never_full C cs (n - 1)"

text \<open>
  \<open>spsc_holds size_policy M K q pending\<close>: the ring \<open>q\<close> on a regular buffer holds the
  elements \<open>pending\<close>, oldest first, at the indices from its tail up to its head.
\<close>

definition spsc_holds ::
  "cache_size_policy \<Rightarrow> size_t \<Rightarrow> size_t \<Rightarrow> 'a spsc_queue \<Rightarrow> 'a list \<Rightarrow> bool" where
  "spsc_holds size_policy M K q pending \<longleftrightarrow>
     regular_buffer size_policy M K (m_buffer_spsc q) \<and>
     m_capacity_spsc q = M * K \<and>
     m_free_capacity_needed_spsc q = M * K - 1 \<and>
     m_private_head q = m_head q \<and>
     unat (m_tail_spsc q) + length pending = unat (m_head q) \<and>
     length pending < unat (M * K) \<and>
     (\<forall>j < length pending.
        get (m_buffer_spsc q) (m_tail_spsc q + of_nat j) = Inr (pending ! j))"

text \<open>The elements that \<open>calls\<close> push, in order.\<close>

fun pushed :: "'a ring_call list \<Rightarrow> 'a list" where
  "pushed [] = []"
| "pushed (Push v # cs) = v # pushed cs"
| "pushed (Pop # cs) = pushed cs"

text \<open>
  \<open>live st p\<close>: the address \<open>p\<close> holds a handle that is still subscribed.
\<close>

definition live :: "subscription_handle store \<Rightarrow> nat \<Rightarrow> bool" where
  "live st p = (case cells st p of None \<Rightarrow> False | Some h \<Rightarrow> subscribed h)"

text \<open>
  \<open>vec_inv max_size s\<close>: the archive is a non-empty list of distinct live vectors;
  \<open>m_current_vec\<close> is an address that was allocated, and while the vector at that
  address is live it holds exactly \<open>m_size\<close> elements, within its capacity, which is
  within \<open>max_size\<close>.  \<open>vec_linked s\<close>: the active vector is the last entry of the
  archive.
\<close>

definition vec_inv :: "size_t \<Rightarrow> 'a spmc_push_vec \<Rightarrow> bool" where
  "vec_inv max_size s \<longleftrightarrow>
     m_old_vecs s \<noteq> [] \<and>
     distinct (m_old_vecs s) \<and>
     list_all (\<lambda>p. p < next_free (m_vecs s) \<and> cells (m_vecs s) p \<noteq> None) (m_old_vecs s) \<and>
     (case m_current_vec s of
        None \<Rightarrow> False
      | Some p \<Rightarrow>
          p < next_free (m_vecs s) \<and>
          (case cells (m_vecs s) p of
             None \<Rightarrow> True
           | Some v \<Rightarrow>
               length (elems v) = unat (m_size s) \<and>
               length (elems v) \<le> unat (cap v) \<and>
               cap v \<le> max_size))"

definition vec_linked :: "'a spmc_push_vec \<Rightarrow> bool" where
  "vec_linked s \<longleftrightarrow> m_old_vecs s \<noteq> [] \<and> m_current_vec s = Some (last (m_old_vecs s))"

text \<open>\<open>allocations_succeed n s\<close>: none of the next \<open>n\<close> allocations fails.\<close>

definition allocations_succeed :: "nat \<Rightarrow> 'a spmc_push_vec \<Rightarrow> bool" where
  "allocations_succeed n s \<longleftrightarrow> True \<notin> set (take n (m_allocs s))"
chapter \<open>Properties\<close>

section \<open>The storage\<close>

subsection \<open>Powers of two in 64 bits\<close>

lemma unat_pow2: "j < 64 \<Longrightarrow> unat ((2::size_t) ^ j) = 2 ^ j"
proof -
  assume j: "j < 64"
  have "(2::size_t) ^ j = word_of_nat (2 ^ j)" by simp
  then have "unat ((2::size_t) ^ j) = (2 ^ j) mod 2 ^ LENGTH(64)"
    by (simp only: unat_of_nat)
  moreover have "(2::nat) ^ j < 2 ^ LENGTH(64)"
    using j by (intro power_strict_increasing) simp_all
  ultimately show ?thesis by (simp only: mod_less)
qed

lemma push_bit_pow2: "push_bit 1 ((2::size_t) ^ j) = 2 ^ Suc j"
  by (simp add: push_bit_eq_mult)

lemma drop_bit_pow2:
  assumes "Suc k < 64"
  shows "drop_bit 1 ((2::size_t) ^ Suc k) = 2 ^ k"
proof -
  have "unat (drop_bit 1 ((2::size_t) ^ Suc k)) = drop_bit 1 (unat ((2::size_t) ^ Suc k))"
    by (rule unat_drop_bit_eq)
  also have "\<dots> = drop_bit 1 ((2::nat) ^ Suc k)"
    using assms by (simp only: unat_pow2)
  also have "\<dots> = 2 ^ k" by (simp add: drop_bit_eq_div)
  also have "\<dots> = unat ((2::size_t) ^ k)"
    using assms by (simp add: unat_pow2)
  finally show ?thesis by (simp only: word_unat_eq_iff)
qed

lemma pow2_le_iff: "j < 64 \<Longrightarrow> (2::size_t) ^ j \<le> v \<longleftrightarrow> 2 ^ j \<le> unat v"
  by (simp only: word_le_nat_alt unat_pow2)

lemma pow2_less_iff: "j < 64 \<Longrightarrow> (2::size_t) ^ j < v \<longleftrightarrow> 2 ^ j < unat v"
  by (simp only: word_less_nat_alt unat_pow2)

lemma pow2_not_le: "j < 64 \<Longrightarrow> unat v < 2 ^ j \<Longrightarrow> \<not> (2::size_t) ^ j \<le> v"
  using pow2_le_iff [of j v] by linarith

lemma pow2_not_less: "j < 64 \<Longrightarrow> unat v \<le> 2 ^ j \<Longrightarrow> \<not> (2::size_t) ^ j < v"
  using pow2_less_iff [of j v] by linarith

subsection \<open>The loops of pow2_factory and log2_factory\<close>

lemma pow2_lower_loop_pow2:
  assumes "2 ^ k \<le> unat val" "unat val < 2 ^ Suc k" "Suc k < 64" "j \<le> Suc k"
  shows "pow2_lower_loop val (2 ^ j) = Some (2 ^ Suc k)"
  using assms(4)
proof (induction "Suc k - j" arbitrary: j)
  case 0
  then have j: "j = Suc k" by simp
  have "\<not> (2::size_t) ^ Suc k \<le> val"
    using assms(3,2) by (rule pow2_not_le)
  then show ?case
    unfolding j by (subst pow2_lower_loop.simps) simp
next
  case (Suc d)
  then have j: "j \<le> k" by simp
  then have "(2::nat) ^ j \<le> 2 ^ k" by (intro power_increasing) simp_all
  from this assms(1) have "2 ^ j \<le> unat val" by (rule le_trans)
  moreover have "j < 64" using j assms(3) by simp
  ultimately have le: "(2::size_t) ^ j \<le> val" by (simp add: pow2_le_iff)
  have "pow2_lower_loop val (2 ^ Suc j) = Some (2 ^ Suc k)"
    by (rule Suc.hyps(1)) (use Suc.hyps(2) j in simp_all)
  moreover have "pow2_lower_loop val (2 ^ j) = pow2_lower_loop val (push_bit 1 (2 ^ j))"
    using le by (subst pow2_lower_loop.simps) simp
  ultimately show ?case by (simp only: push_bit_pow2)
qed

lemma pow2_factory_lower_pow2:
  assumes "2 ^ k \<le> unat val" "unat val < 2 ^ Suc k" "Suc k < 64"
  shows "pow2_factory_lower val = Some (2 ^ k)"
proof -
  have "pow2_lower_loop val 1 = Some (2 ^ Suc k)"
    using pow2_lower_loop_pow2 [OF assms, of 0] by simp
  then show ?thesis
    using drop_bit_pow2 [OF assms(3)] by (simp only: pow2_factory_lower_def option.map)
qed

lemma log2_lower_loop_pow2:
  assumes "2 ^ k \<le> unat val" "unat val < 2 ^ Suc k" "Suc k < 64" "j \<le> Suc k"
  shows "log2_lower_loop val (2 ^ j) (word_of_nat j) = Some (word_of_nat (Suc k))"
  using assms(4)
proof (induction "Suc k - j" arbitrary: j)
  case 0
  then have j: "j = Suc k" by simp
  have "\<not> (2::size_t) ^ Suc k \<le> val"
    using assms(3,2) by (rule pow2_not_le)
  then show ?case
    unfolding j by (subst log2_lower_loop.simps) simp
next
  case (Suc d)
  then have j: "j \<le> k" by simp
  then have "(2::nat) ^ j \<le> 2 ^ k" by (intro power_increasing) simp_all
  from this assms(1) have "2 ^ j \<le> unat val" by (rule le_trans)
  moreover have "j < 64" using j assms(3) by simp
  ultimately have le: "(2::size_t) ^ j \<le> val" by (simp add: pow2_le_iff)
  have "log2_lower_loop val (2 ^ Suc j) (word_of_nat (Suc j)) = Some (word_of_nat (Suc k))"
    by (rule Suc.hyps(1)) (use Suc.hyps(2) j in simp_all)
  moreover have "log2_lower_loop val (2 ^ j) (word_of_nat j)
      = log2_lower_loop val (push_bit 1 (2 ^ j)) (word_of_nat j + 1)"
    using le by (subst log2_lower_loop.simps) simp
  moreover have "(word_of_nat j + 1 :: size_t) = word_of_nat (Suc j)" by simp
  ultimately show ?case by (simp only: push_bit_pow2)
qed

lemma log2_factory_lower_pow2:
  assumes "2 ^ k \<le> unat val" "unat val < 2 ^ Suc k" "Suc k < 64"
  shows "log2_factory_lower val = Some (word_of_nat k)"
proof -
  have "log2_lower_loop val 1 0 = Some (word_of_nat (Suc k))"
    using log2_lower_loop_pow2 [OF assms, of 0] by simp
  then show ?thesis
    by (simp add: log2_factory_lower_def)
qed

lemma pow2_upper_loop_pow2:
  assumes "unat val \<le> 2 ^ k" "k = 0 \<or> 2 ^ (k - 1) < unat val" "k < 64" "j \<le> k"
  shows "pow2_upper_loop val (2 ^ j) = Some (2 ^ k)"
  using assms(4)
proof (induction "k - j" arbitrary: j)
  case 0
  then have j: "j = k" by simp
  have "\<not> (2::size_t) ^ k < val"
    using assms(3,1) by (rule pow2_not_less)
  then show ?case
    unfolding j by (subst pow2_upper_loop.simps) simp
next
  case (Suc d)
  then have j: "j < k" by simp
  then have "(2::nat) ^ j \<le> 2 ^ (k - 1)" by (intro power_increasing) simp_all
  moreover from assms(2) j have "(2::nat) ^ (k - 1) < unat val" by auto
  ultimately have "2 ^ j < unat val" by (rule le_less_trans)
  moreover have "j < 64" using j assms(3) by simp
  ultimately have le: "(2::size_t) ^ j < val" by (simp add: pow2_less_iff)
  have "pow2_upper_loop val (2 ^ Suc j) = Some (2 ^ k)"
    by (rule Suc.hyps(1)) (use Suc.hyps(2) j in simp_all)
  moreover have "pow2_upper_loop val (2 ^ j) = pow2_upper_loop val (push_bit 1 (2 ^ j))"
    using le by (subst pow2_upper_loop.simps) simp
  ultimately show ?case by (simp only: push_bit_pow2)
qed



lemma log2_lower_loop_zero:
  assumes "log2_lower_loop val current out = Some y"
  shows "current \<noteq> 0"
proof (rule log2_lower_loop.raw_induct
    [where P = "\<lambda>val current out y. current \<noteq> 0", OF _ assms])
  fix loop :: "size_t \<Rightarrow> size_t \<Rightarrow> size_t \<Rightarrow> size_t option" and v c :: size_t and ou r :: size_t
  assume IH: "\<And>current out b y. loop current out b = Some y \<Longrightarrow> out \<noteq> 0"
    and eq: "(if c \<le> v then loop v (push_bit 1 c) (ou + 1) else Some ou) = Some r"
  show "c \<noteq> 0"
  proof (cases "c \<le> v")
    case True
    with eq have "loop v (push_bit 1 c) (ou + 1) = Some r" by simp
    from IH [OF this] show ?thesis by auto
  next
    case False
    then show ?thesis by auto
  qed
qed

lemma pow2_lower_loop_zero:
  assumes "pow2_lower_loop val current = Some y"
  shows "current \<noteq> 0"
proof (rule pow2_lower_loop.raw_induct
    [where P = "\<lambda>val current y. current \<noteq> 0", OF _ assms])
  fix loop :: "size_t \<Rightarrow> size_t \<Rightarrow> size_t option" and v c r :: size_t
  assume IH: "\<And>current b y. loop current b = Some y \<Longrightarrow> b \<noteq> 0"
    and eq: "(if c \<le> v then loop v (push_bit 1 c) else Some c) = Some r"
  show "c \<noteq> 0"
  proof (cases "c \<le> v")
    case True
    with eq have "loop v (push_bit 1 c) = Some r" by simp
    from IH [OF this] show ?thesis by auto
  next
    case False
    then show ?thesis by auto
  qed
qed

lemma pow2_upper_loop_zero:
  assumes "pow2_upper_loop val current = Some y"
  shows "current \<noteq> 0 \<or> val = 0"
proof (rule pow2_upper_loop.raw_induct
    [where P = "\<lambda>val current y. current \<noteq> 0 \<or> val = 0", OF _ assms])
  fix loop :: "size_t \<Rightarrow> size_t \<Rightarrow> size_t option" and v c r :: size_t
  assume IH: "\<And>current b y. loop current b = Some y \<Longrightarrow> b \<noteq> 0 \<or> current = 0"
    and eq: "(if c < v then loop v (push_bit 1 c) else Some c) = Some r"
  show "c \<noteq> 0 \<or> v = 0"
  proof (cases "c < v")
    case True
    with eq have "loop v (push_bit 1 c) = Some r" by simp
    from IH [OF this] show ?thesis by auto
  next
    case False
    then show ?thesis by (auto simp: word_gt_0)
  qed
qed

text \<open>A value of \<open>2^63\<close> or more: the loop shifts the bit out and never returns.\<close>

lemma log2_lower_loop_diverges:
  assumes "2 ^ 63 \<le> unat val" "j \<le> 63"
  shows "log2_lower_loop val (2 ^ j) out = None"
  using assms(2)
proof (induction "63 - j" arbitrary: j out)
  case 0
  then have j: "j = 63" by simp
  have le: "(2::size_t) ^ 63 \<le> val" using assms(1) pow2_le_iff [of 63 val] by simp
  have "log2_lower_loop val (push_bit 1 (2 ^ 63)) (out + 1) = None"
  proof (cases "log2_lower_loop val (push_bit 1 (2 ^ 63)) (out + 1)")
    case None
    then show ?thesis .
  next
    case (Some y)
    from log2_lower_loop_zero [OF this] show ?thesis by simp
  qed
  moreover have "log2_lower_loop val (2 ^ 63) out
      = log2_lower_loop val (push_bit 1 (2 ^ 63)) (out + 1)"
    using le by (subst log2_lower_loop.simps) simp
  ultimately show ?case unfolding j by simp
next
  case (Suc d)
  then have j: "j < 63" by simp
  then have "(2::nat) ^ j \<le> 2 ^ 63" by (intro power_increasing) simp_all
  from this assms(1) have "2 ^ j \<le> unat val" by (rule le_trans)
  then have le: "(2::size_t) ^ j \<le> val" using j by (simp add: pow2_le_iff)
  have "log2_lower_loop val (2 ^ Suc j) (out + 1) = None"
    by (rule Suc.hyps(1)) (use Suc.hyps(2) j in simp_all)
  moreover have "log2_lower_loop val (2 ^ j) out
      = log2_lower_loop val (push_bit 1 (2 ^ j)) (out + 1)"
    using le by (subst log2_lower_loop.simps) simp
  ultimately show ?case by (simp only: push_bit_pow2)
qed

lemma log2_factory_lower_diverges:
  "2 ^ 63 \<le> unat val \<Longrightarrow> log2_factory_lower val = None"
  using log2_lower_loop_diverges [of val 0 0] by (simp add: log2_factory_lower_def)


subsection \<open>The constructor\<close>

lemma ctor_shape:
  assumes "false_sharing_optimized_buffer_ctor size_policy sizeof_T dflt L E = Some b"
  obtains K min_lines where
    "elements_per_cache_line sizeof_T size_policy = Some K"
    "calc_min_cache_lines size_policy L = Some min_lines"
    "buffer_shape size_policy (max min_lines ((E + (K - 1)) div K)) K b"
    "m_lines b = replicate (unat (max min_lines ((E + (K - 1)) div K))) (replicate (unat K) dflt)"
proof -
  from assms obtain K min_lines div_index where
    K: "elements_per_cache_line sizeof_T size_policy = Some K"
    and L: "calc_min_cache_lines size_policy L = Some min_lines"
    and D: "div_indexer_ctor size_policy (max min_lines ((E + (K - 1)) div K)) = Some div_index"
    and b: "b = \<lparr>line_elements = K,
         m_lines = replicate (unat (max min_lines ((E + (K - 1)) div K))) (replicate (unat K) dflt),
         m_mod_index = mod_indexer_ctor size_policy (max min_lines ((E + (K - 1)) div K)),
         m_div_index = div_index,
         m_mod_index2 = mod_indexer_ctor size_policy (max min_lines ((E + (K - 1)) div K) * K)\<rparr>"
    by (auto simp: false_sharing_optimized_buffer_ctor_def Let_def bind_eq_Some_conv)
  have "buffer_shape size_policy (max min_lines ((E + (K - 1)) div K)) K b"
    unfolding buffer_shape_def b using D by (simp add: list_all_length)
  from K L this show thesis
  proof (rule that)
    show "m_lines b = replicate (unat (max min_lines ((E + (K - 1)) div K))) (replicate (unat K) dflt)"
      unfolding b by simp
  qed
qed

lemma number_of_cache_lines_shape:
  "buffer_shape size_policy M K b \<Longrightarrow> number_of_cache_lines b = M"
  by (simp add: buffer_shape_def number_of_cache_lines_def)

lemma buffer_size_shape:
  "buffer_shape size_policy M K b \<Longrightarrow> buffer_size b = M * K"
  by (simp add: buffer_size_def number_of_cache_lines_shape) (simp add: buffer_shape_def)


subsection \<open>The cell of an index\<close>

lemma unat_capacity:
  "unat M * unat K < 2 ^ 64 \<Longrightarrow> unat ((M::size_t) * K) = unat M * unat K"
  using unat_mult_lem [of M K] by simp

lemma unat_line:
  "unat ((i::size_t) mod M) = unat i mod unat M"
  by (rule unat_mod)

lemma unat_slot:
  assumes "unat M * unat K < 2 ^ 64"
  shows "unat (((i::size_t) mod (M * K)) div M) = (unat i mod (unat M * unat K)) div unat M"
  by (simp add: unat_div unat_mod unat_capacity [OF assms])

lemma line_in_bounds:
  "0 < (M::size_t) \<Longrightarrow> unat (i mod M) < unat M"
  by (simp add: unat_mod word_less_nat_alt)

lemma slot_in_bounds:
  assumes "0 < (M::size_t)" "0 < K" "unat M * unat K < 2 ^ 64"
  shows "unat ((i mod (M * K)) div M) < unat K"
proof -
  have "0 < unat M" "0 < unat K" using assms(1,2) by (simp_all add: word_less_nat_alt)
  then have "unat i mod (unat M * unat K) < unat K * unat M"
    by (simp add: mult.commute)
  then have "(unat i mod (unat M * unat K)) div unat M < unat K"
    by (rule less_mult_imp_div_less)
  then show ?thesis by (simp only: unat_slot [OF assms(3)])
qed

lemma shape_line_length:
  assumes "buffer_shape size_policy M K b" "n < unat M"
  shows "length (m_lines b ! n) = unat K"
  using assms by (simp add: buffer_shape_def list_all_length)

lemma cell_exact:
  assumes shape: "buffer_shape exact M K b"
    and M: "0 < M" and K: "0 < K" and cap: "unat M * unat K < 2 ^ 64"
  shows "cell b i = Inr (i mod M, (i mod (M * K)) div M)"
proof -
  have idx: "m_mod_index b = mod_indexer_exact M" "m_div_index b = div_indexer_exact M"
    "m_mod_index2 b = mod_indexer_exact (M * K)"
    using shape by (auto simp: buffer_shape_def)
  have "0 < unat (M * K)"
    using M K by (simp add: unat_capacity [OF cap] word_less_nat_alt)
  then have MK: "M * K \<noteq> 0" by (auto simp: unat_gt_0)
  have len: "length (m_lines b) = unat M" using shape by (simp add: buffer_shape_def)
  have l: "unat (i mod M) < unat M" using M by (rule line_in_bounds)
  have s: "unat ((i mod (M * K)) div M) < unat K" using M K cap by (rule slot_in_bounds)
  from M have M0: "M \<noteq> 0" by auto
  show ?thesis
    unfolding cell_def idx using M0 MK l s len shape_line_length [OF shape l]
    by simp
qed

lemma mask_pow2_mod:
  assumes "m < 64"
  shows "(i::size_t) AND (2 ^ m - 1) = i mod 2 ^ m"
proof -
  have "(0::size_t) < 2 ^ m"
    using assms by (simp add: word_less_nat_alt unat_pow2)
  then have "i mod 2 ^ m = i AND mask m" by (rule word_mod_2p_is_mask)
  then show ?thesis by (simp add: mask_eq_decr_exp)
qed

lemma pow2_exponent:
  assumes "(0::size_t) < 2 ^ m"
  shows "m < 64"
proof (rule ccontr)
  assume "\<not> m < 64"
  then have "(2::size_t) ^ m = 0" by (simp add: exp_eq_zero_iff)
  with assms show False by simp
qed

lemma div_indexer_pow2:
  assumes "div_indexer_ctor pow2 (2 ^ m) = Some d" "(0::size_t) < 2 ^ m"
  shows "m < 63 \<and> d = div_indexer_pow2 (word_of_nat m)"
proof -
  have m64: "m < 64" using assms(2) by (rule pow2_exponent)
  have u: "unat ((2::size_t) ^ m) = 2 ^ m" using m64 by (rule unat_pow2)
  have m63: "m < 63"
  proof (rule ccontr)
    assume "\<not> m < 63"
    with m64 have "m = 63" by simp
    then have "2 ^ 63 \<le> unat ((2::size_t) ^ m)" using u by simp
    then have "log2_factory_lower (2 ^ m) = None" by (rule log2_factory_lower_diverges)
    with assms(1) show False by simp
  qed
  have "log2_factory_lower (2 ^ m) = Some (word_of_nat m)"
    by (rule log2_factory_lower_pow2) (use u m63 in simp_all)
  with assms(1) m63 show ?thesis by auto
qed

lemma cell_pow2:
  assumes shape: "buffer_shape pow2 M K b"
    and M: "0 < M" and K: "0 < K" and cap: "unat M * unat K < 2 ^ 64"
    and pM: "M = 2 ^ m" and pK: "K = 2 ^ k"
  shows "cell b i = Inr (i mod M, (i mod (M * K)) div M)"
proof -
  have m64: "m < 64" using M unfolding pM by (rule pow2_exponent)
  have k64: "k < 64" using K unfolding pK by (rule pow2_exponent)
  have "unat M * unat K = 2 ^ (m + k)"
    unfolding pM pK by (simp add: unat_pow2 m64 k64 power_add)
  with cap have "(2::nat) ^ (m + k) < 2 ^ 64" by simp
  then have mk64: "m + k < 64" by (simp only: power_strict_increasing_iff)
  have MK: "M * K = 2 ^ (m + k)" unfolding pM pK by (simp add: power_add)
  from shape have d: "div_indexer_ctor pow2 (2 ^ m) = Some (m_div_index b)"
    unfolding pM by (simp add: buffer_shape_def)
  from div_indexer_pow2 [OF d] M
  have m63: "m < 63" and di: "m_div_index b = div_indexer_pow2 (word_of_nat m)"
    unfolding pM by auto
  have idx: "m_mod_index b = mod_indexer_pow2 (2 ^ m - 1)"
    "m_mod_index2 b = mod_indexer_pow2 (2 ^ (m + k) - 1)"
    using shape unfolding pM pK by (auto simp: buffer_shape_def power_add)
  have um: "unat (word_of_nat m :: size_t) = m"
    using m64 by (simp add: unat_of_nat)
  have sh: "\<not> 64 \<le> (word_of_nat m :: size_t)"
    using m64 by (simp add: word_le_nat_alt um)
  have len: "length (m_lines b) = unat M" using shape by (simp add: buffer_shape_def)
  have l: "unat (i mod M) < unat M" using M by (rule line_in_bounds)
  have s: "unat ((i mod (M * K)) div M) < unat K" using M K cap by (rule slot_in_bounds)
  have line: "i AND (2 ^ m - 1) = i mod M"
    unfolding pM using m64 by (rule mask_pow2_mod)
  have flat: "i AND (2 ^ (m + k) - 1) = i mod (M * K)"
    unfolding MK using mk64 by (rule mask_pow2_mod)
  have slot: "drop_bit m (i mod (M * K)) = (i mod (M * K)) div M"
    unfolding pM by (simp add: drop_bit_eq_div)
  show ?thesis
    unfolding cell_def idx di
    using l s len shape_line_length [OF shape l] sh
    by (simp add: um line flat slot)
qed


lemma cell_regular:
  assumes "buffer_shape size_policy M K b"
    and "0 < M" and "0 < K" and "unat M * unat K < 2 ^ 64"
    and "size_policy = pow2 \<longrightarrow> (\<exists>m k. M = 2 ^ m \<and> K = 2 ^ k)"
  shows "cell b i = Inr (i mod M, (i mod (M * K)) div M)"
proof (cases size_policy)
  case exact
  with assms show ?thesis by (auto intro: cell_exact)
next
  case pow2
  with assms(5) obtain m k where "M = 2 ^ m" "K = 2 ^ k" by auto
  with assms(1-4) pow2 show ?thesis by (auto intro: cell_pow2)
qed

subsection \<open>Indices and cells\<close>

lemma nat_cell_eq:
  fixes a b M :: nat
  assumes "a mod M = b mod M" "a div M = b div M"
  shows "a = b"
proof -
  have "a = a div M * M + a mod M" by simp
  also have "\<dots> = b div M * M + b mod M" using assms by simp
  also have "\<dots> = b" by simp
  finally show ?thesis .
qed

lemma nat_line_of_flat:
  fixes a M K :: nat
  shows "(a mod (M * K)) mod M = a mod M"
  by (rule mod_mod_cancel) simp

lemma same_cell_iff:
  fixes i j M K :: size_t
  assumes cap: "unat M * unat K < 2 ^ 64"
  shows "(i mod M, (i mod (M * K)) div M) = (j mod M, (j mod (M * K)) div M)
     \<longleftrightarrow> i mod (M * K) = j mod (M * K)"
proof
  assume "(i mod M, (i mod (M * K)) div M) = (j mod M, (j mod (M * K)) div M)"
  then have l: "unat (i mod M) = unat (j mod M)"
    and s: "unat ((i mod (M * K)) div M) = unat ((j mod (M * K)) div M)" by simp_all
  let ?a = "unat i mod (unat M * unat K)" and ?b = "unat j mod (unat M * unat K)"
  from l have "?a mod unat M = ?b mod unat M"
    by (simp only: unat_mod nat_line_of_flat)
  moreover from s have "?a div unat M = ?b div unat M"
    by (simp only: unat_slot [OF cap])
  ultimately have "?a = ?b" by (rule nat_cell_eq)
  then have "unat (i mod (M * K)) = unat (j mod (M * K))"
    by (simp only: unat_mod unat_capacity [OF cap])
  then show "i mod (M * K) = j mod (M * K)" by (simp only: word_unat_eq_iff)
next
  assume eq: "i mod (M * K) = j mod (M * K)"
  then have "unat (i mod (M * K)) = unat (j mod (M * K))" by simp
  then have u: "unat i mod (unat M * unat K) = unat j mod (unat M * unat K)"
    by (simp only: unat_mod unat_capacity [OF cap])
  have "unat (i mod M) = (unat i mod (unat M * unat K)) mod unat M"
    by (simp only: unat_mod nat_line_of_flat)
  also have "\<dots> = (unat j mod (unat M * unat K)) mod unat M" by (simp only: u)
  also have "\<dots> = unat (j mod M)" by (simp only: unat_mod nat_line_of_flat)
  finally have "i mod M = j mod M" by (simp only: word_unat_eq_iff)
  with eq show "(i mod M, (i mod (M * K)) div M) = (j mod M, (j mod (M * K)) div M)"
    by simp
qed

lemma cell_bijection:
  fixes M K :: size_t
  assumes M: "0 < M" and K: "0 < K" and cap: "unat M * unat K < 2 ^ 64"
  shows "bij_betw (\<lambda>i. (i mod M, (i mod (M * K)) div M)) {i. i < M * K}
           ({line. line < M} \<times> {slot. slot < K})"
proof (rule bij_betwI')
  fix i j
  assume "i \<in> {i. i < M * K}" "j \<in> {i. i < M * K}"
  then have "i mod (M * K) = i" "j mod (M * K) = j"
    by (simp_all add: word_mod_less_divisor mod_word_less)
  with same_cell_iff [OF cap, of i j]
  show "((i mod M, (i mod (M * K)) div M) = (j mod M, (j mod (M * K)) div M)) = (i = j)"
    by simp
next
  fix i
  assume "i \<in> {i. i < M * K}"
  have "i mod M < M" using M by (rule word_mod_less_divisor)
  moreover have "(i mod (M * K)) div M < K"
    using slot_in_bounds [OF M K cap, of i] by (simp add: word_less_nat_alt)
  ultimately show "(i mod M, (i mod (M * K)) div M) \<in> {line. line < M} \<times> {slot. slot < K}"
    by simp
next
  fix c
  assume "c \<in> {line. line < M} \<times> {slot. slot < K}"
  then obtain line slot where c: "c = (line, slot)" and line: "line < M" and slot: "slot < K"
    by auto
  let ?n = "unat slot * unat M + unat line"
  have ul: "unat line < unat M" and us: "unat slot < unat K"
    using line slot by (simp_all add: word_less_nat_alt)
  have "?n < (unat slot + 1) * unat M" using ul by simp
  also have "\<dots> \<le> unat K * unat M" using us by (intro mult_le_mono1) simp
  finally have n_lt: "?n < unat M * unat K" by (simp add: mult.commute)
  with cap have n64: "?n < 2 ^ 64" by simp
  let ?i = "word_of_nat ?n :: size_t"
  have "unat ?i = ?n mod 2 ^ LENGTH(64)" by (rule unat_of_nat)
  also have "\<dots> = ?n" using n64 by (intro mod_less) simp
  finally have ui: "unat ?i = ?n" .
  have "unat ?i < unat (M * K)" using n_lt by (simp only: ui unat_capacity [OF cap])
  then have i_lt: "?i < M * K" by (simp only: word_less_nat_alt)
  have "unat (?i mod M) = unat line"
    using ul by (simp only: unat_mod ui) simp
  then have l: "?i mod M = line" by (simp only: word_unat_eq_iff)
  have "unat ((?i mod (M * K)) div M) = (?n mod (unat M * unat K)) div unat M"
    by (simp only: unat_slot [OF cap] ui)
  also have "\<dots> = ?n div unat M" using n_lt by simp
  also have "\<dots> = unat slot" using ul by simp
  finally have s: "(?i mod (M * K)) div M = slot" by (simp only: word_unat_eq_iff)
  from i_lt l s c
  show "\<exists>i\<in>{i. i < M * K}. c = (i mod M, (i mod (M * K)) div M)" by auto
qed


subsection \<open>Reading and writing a cell\<close>

lemma get_cell:
  "cell b i = Inr (line, slot) \<Longrightarrow> get b i = Inr (m_lines b ! unat line ! unat slot)"
  by (simp add: get_def)

lemma cell_in_bounds:
  "cell b i = Inr (line, slot) \<Longrightarrow>
   unat line < length (m_lines b) \<and> unat slot < length (m_lines b ! unat line)"
  by (auto simp: cell_def split: sum.splits if_splits)

lemma put_cell:
  "cell b i = Inr (line, slot) \<Longrightarrow>
   put b i v = Inr (b\<lparr>m_lines := (m_lines b)[unat line := (m_lines b ! unat line)[unat slot := v]]\<rparr>)"
  by (simp add: put_def)

lemma put_Inr:
  assumes "put b i v = Inr b'"
  obtains line slot where "cell b i = Inr (line, slot)"
    "b' = b\<lparr>m_lines := (m_lines b)[unat line := (m_lines b ! unat line)[unat slot := v]]\<rparr>"
  using assms by (auto simp: put_def split: sum.splits)

lemma get_defined_put_defined:
  "get b i = Inr x \<Longrightarrow> \<exists>b'. put b i v = Inr b'"
  by (auto simp: get_def put_def split: sum.splits)

lemma cell_put:
  assumes "put b i v = Inr b'"
  shows "cell b' j = cell b j"
proof -
  from assms obtain line slot where c: "cell b i = Inr (line, slot)" and
    b': "b' = b\<lparr>m_lines := (m_lines b)[unat line := (m_lines b ! unat line)[unat slot := v]]\<rparr>"
    by (rule put_Inr)
  have "length (m_lines b' ! n) = length (m_lines b ! n)" if "n < length (m_lines b)" for n
    unfolding b' using that by (cases "n = unat line") simp_all
  then show ?thesis
    unfolding cell_def by (auto simp: b' split: sum.splits)
qed

lemma get_put_same:
  assumes "put b i v = Inr b'"
  shows "get b' i = Inr v"
proof -
  from assms obtain line slot where c: "cell b i = Inr (line, slot)" and
    b': "b' = b\<lparr>m_lines := (m_lines b)[unat line := (m_lines b ! unat line)[unat slot := v]]\<rparr>"
    by (rule put_Inr)
  from cell_in_bounds [OF c] have "m_lines b' ! unat line ! unat slot = v"
    unfolding b' by simp
  moreover have "cell b' i = Inr (line, slot)" using cell_put [OF assms] c by simp
  ultimately show ?thesis by (simp add: get_def)
qed

lemma get_put_other:
  assumes "put b i v = Inr b'" "cell b j \<noteq> cell b i"
  shows "get b' j = get b j"
proof -
  from assms(1) obtain line slot where c: "cell b i = Inr (line, slot)" and
    b': "b' = b\<lparr>m_lines := (m_lines b)[unat line := (m_lines b ! unat line)[unat slot := v]]\<rparr>"
    by (rule put_Inr)
  have cj: "cell b' j = cell b j" using assms(1) by (rule cell_put)
  show ?thesis
  proof (cases "cell b j")
    case (Inl e)
    then show ?thesis by (simp add: get_def cj)
  next
    case (Inr p)
    obtain l s where p: "p = (l, s)" by (cases p)
    with Inr assms(2) c have ne: "(l, s) \<noteq> (line, slot)" by auto
    from cell_in_bounds [of b j l s] Inr p
    have lb: "unat l < length (m_lines b)" by simp
    have "m_lines b' ! unat l ! unat s = m_lines b ! unat l ! unat s"
    proof (cases "l = line")
      case True
      with ne have "unat s \<noteq> unat slot" by (simp add: word_unat_eq_iff)
      with True lb show ?thesis unfolding b' by simp
    next
      case False
      then have "unat l \<noteq> unat line" by (simp add: word_unat_eq_iff)
      then show ?thesis unfolding b' by simp
    qed
    with Inr p show ?thesis by (simp add: get_def cj)
  qed
qed

lemma put_shape:
  assumes "buffer_shape size_policy M K b" "put b i v = Inr b'"
  shows "buffer_shape size_policy M K b'"
proof -
  from assms(2) obtain line slot where c: "cell b i = Inr (line, slot)" and
    b': "b' = b\<lparr>m_lines := (m_lines b)[unat line := (m_lines b ! unat line)[unat slot := v]]\<rparr>"
    by (rule put_Inr)
  have "length (m_lines b' ! n) = length (m_lines b ! n)" if "n < length (m_lines b)" for n
    unfolding b' using that by (cases "n = unat line") simp_all
  with assms(1) show ?thesis
    unfolding buffer_shape_def list_all_length by (simp add: b')
qed

subsection \<open>Regular buffers\<close>

lemma regular_buffer_cell:
  assumes "regular_buffer size_policy M K b"
  shows "cell b i = Inr (i mod M, (i mod (M * K)) div M)"
  using assms unfolding regular_buffer_def by (intro cell_regular) auto

lemma regular_buffer_get:
  assumes "regular_buffer size_policy M K b"
  shows "\<exists>v. get b i = Inr v"
  using regular_buffer_cell [OF assms, of i] by (simp add: get_def)

lemma regular_buffer_put:
  assumes "regular_buffer size_policy M K b"
  shows "\<exists>b'. put b i v = Inr b' \<and> regular_buffer size_policy M K b'"
proof -
  from regular_buffer_cell [OF assms, of i] obtain b' where p: "put b i v = Inr b'"
    by (simp add: put_def)
  from assms have "buffer_shape size_policy M K b" by (simp add: regular_buffer_def)
  from put_shape [OF this p] assms have "regular_buffer size_policy M K b'"
    by (simp add: regular_buffer_def)
  with p show ?thesis by blast
qed

subsection \<open>What the constructor allocates\<close>

lemma elements_per_cache_line_exact_bounds:
  assumes "0 < sizeof_T"
  shows "1 \<le> unat (elements_per_cache_line_exact sizeof_T)"
    and "unat (elements_per_cache_line_exact sizeof_T) \<le> 64"
proof -
  have s: "0 < unat sizeof_T" using assms by (simp add: word_less_nat_alt)
  show "1 \<le> unat (elements_per_cache_line_exact sizeof_T)"
  proof (cases "sizeof_T > cache_line_size")
    case True
    then show ?thesis by (simp add: elements_per_cache_line_exact_def)
  next
    case False
    then have "unat sizeof_T \<le> 64"
      by (simp add: cache_line_size_def word_less_nat_alt)
    with s have "1 \<le> 64 div unat sizeof_T"
      by (simp add: Suc_le_eq div_greater_zero_iff)
    with False show ?thesis
      by (simp add: elements_per_cache_line_exact_def cache_line_size_def unat_div)
  qed
  show "unat (elements_per_cache_line_exact sizeof_T) \<le> 64"
  proof (cases "sizeof_T > cache_line_size")
    case True
    then show ?thesis by (simp add: elements_per_cache_line_exact_def)
  next
    case False
    have "64 div unat sizeof_T \<le> 64" by (rule div_le_dividend)
    with False show ?thesis
      by (simp add: elements_per_cache_line_exact_def cache_line_size_def unat_div)
  qed
qed

lemma elements_per_cache_line_positive:
  assumes "0 < sizeof_T" "elements_per_cache_line sizeof_T size_policy = Some K"
  shows "0 < K \<and> (size_policy = pow2 \<longrightarrow> (\<exists>k. K = 2 ^ k))"
proof (cases size_policy)
  case exact
  with assms(2) have "K = elements_per_cache_line_exact sizeof_T" by simp
  with elements_per_cache_line_exact_bounds(1) [OF assms(1)] exact
  show ?thesis by (simp add: word_less_nat_alt)
next
  case pow2
  let ?x = "elements_per_cache_line_exact sizeof_T"
  from elements_per_cache_line_exact_bounds [OF assms(1)]
  have lo: "1 \<le> unat ?x" and hi: "unat ?x \<le> 64" .
  from ex_power_ivl1 [of 2 "unat ?x"] lo
  obtain n where n: "2 ^ n \<le> unat ?x" "unat ?x < 2 ^ Suc n" by auto
  from n(1) hi have "(2::nat) ^ n \<le> 2 ^ 6" by simp
  then have "n \<le> 6" by (simp only: power_increasing_iff) 
  then have n64: "Suc n < 64" by simp
  from pow2_factory_lower_pow2 [OF n n64] assms(2) pow2
  have K: "K = 2 ^ n" by simp
  have "unat K = 2 ^ n" unfolding K using n64 by (simp add: unat_pow2)
  then have "0 < K" by (simp add: word_less_nat_alt)
  with K pow2 show ?thesis by auto
qed

lemma pow2_upper_loop_power:
  assumes "pow2_upper_loop val current = Some y"
  shows "(current \<noteq> 0 \<or> val = 0) \<and> ((\<exists>j<64. current = 2 ^ j) \<longrightarrow> (\<exists>k<64. y = 2 ^ k))"
proof (rule pow2_upper_loop.raw_induct
    [where P = "\<lambda>val current y. (current \<noteq> 0 \<or> val = 0) \<and>
                  ((\<exists>j<64. current = 2 ^ j) \<longrightarrow> (\<exists>k<64. y = 2 ^ k))", OF _ assms])
  fix loop :: "size_t \<Rightarrow> size_t \<Rightarrow> size_t option" and v c r :: size_t
  assume IH: "\<And>current b y. loop current b = Some y \<Longrightarrow>
      (b \<noteq> 0 \<or> current = 0) \<and> ((\<exists>j<64. b = 2 ^ j) \<longrightarrow> (\<exists>k<64. y = 2 ^ k))"
    and eq: "(if c < v then loop v (push_bit 1 c) else Some c) = Some r"
  show "(c \<noteq> 0 \<or> v = 0) \<and> ((\<exists>j<64. c = 2 ^ j) \<longrightarrow> (\<exists>k<64. r = 2 ^ k))"
  proof (cases "c < v")
    case True
    with eq have call: "loop v (push_bit 1 c) = Some r" by simp
    from True have v: "v \<noteq> 0" by auto
    from IH [OF call] v have nz: "push_bit 1 c \<noteq> 0"
      and pw: "(\<exists>j<64. push_bit 1 c = 2 ^ j) \<longrightarrow> (\<exists>k<64. r = 2 ^ k)" by auto
    from nz have c: "c \<noteq> 0" by auto
    have "\<exists>k<64. r = 2 ^ k" if "\<exists>j<64. c = 2 ^ j"
    proof -
      from that obtain j where j: "j < 64" "c = 2 ^ j" by auto
      have p: "push_bit 1 c = 2 ^ Suc j" unfolding j(2) by (rule push_bit_pow2)
      have "Suc j < 64"
      proof (rule ccontr)
        assume "\<not> Suc j < 64"
        then have "(2::size_t) ^ Suc j = 0" by (simp only: exp_eq_zero_iff) simp
        with p nz show False by simp
      qed
      with p pw show ?thesis by blast
    qed
    with c show ?thesis by blast
  next
    case False
    with eq have "r = c" by simp
    moreover from False have "c \<noteq> 0 \<or> v = 0" by (auto simp: word_gt_0)
    ultimately show ?thesis by blast
  qed
qed

lemma pow2_factory_upper_power:
  assumes "pow2_factory_upper val = Some u"
  shows "\<exists>k<64. u = 2 ^ k"
proof -
  have "\<exists>j<64. (1::size_t) = 2 ^ j" by (rule exI [of _ 0]) simp
  with pow2_upper_loop_power [of val 1 u] assms show ?thesis
    by (simp add: pow2_factory_upper_def)
qed

lemma pow2_positive: "k < 64 \<Longrightarrow> (0::size_t) < 2 ^ k"
  by (simp add: word_less_nat_alt unat_pow2)

text \<open>
  The number of lines.  Under \<open>exact\<close> it is the larger of \<open>minimum_cache_lines\<close> and
  \<open>(minimum_elements + (K - 1)) / K\<close>, which is the ceiling of \<open>minimum_elements / K\<close>
  as long as the sum does not wrap.  Under \<open>pow2\<close> only \<open>minimum_cache_lines\<close> is
  rounded up to a power of two before the comparison.
\<close>

lemma ctor_exact_lines:
  assumes "false_sharing_optimized_buffer_ctor exact sizeof_T dflt L E = Some b"
  shows "line_elements b = elements_per_cache_line_exact sizeof_T"
    and "number_of_cache_lines b = max L ((E + (line_elements b - 1)) div line_elements b)"
    and "buffer_size b = number_of_cache_lines b * line_elements b"
proof -
  from assms obtain K min_lines where
    K: "elements_per_cache_line sizeof_T exact = Some K"
    and L: "calc_min_cache_lines exact L = Some min_lines"
    and shape: "buffer_shape exact (max min_lines ((E + (K - 1)) div K)) K b"
    by (rule ctor_shape)
  from K have K': "K = elements_per_cache_line_exact sizeof_T" by simp
  from L have L': "min_lines = L" by simp
  from shape have le: "line_elements b = K" by (simp add: buffer_shape_def)
  show "line_elements b = elements_per_cache_line_exact sizeof_T" using le K' by simp
  show "number_of_cache_lines b = max L ((E + (line_elements b - 1)) div line_elements b)"
    using number_of_cache_lines_shape [OF shape] le L' by simp
  show "buffer_size b = number_of_cache_lines b * line_elements b"
    by (simp add: buffer_size_def)
qed

lemma exact_lines_ceiling:
  fixes E K :: size_t
  assumes "0 < K" "unat E + unat K - 1 < 2 ^ 64"
  shows "unat (max L ((E + (K - 1)) div K)) = max (unat L) ((unat E + unat K - 1) div unat K)"
proof -
  have K1: "unat (K - 1) = unat K - 1"
    using assms(1) by (simp add: unat_minus_one word_gt_0)
  have "0 < unat K" using assms(1) by (simp add: word_less_nat_alt)
  then have "unat E + unat (K - 1) = unat E + unat K - 1" unfolding K1 by simp
  with assms(2) have "unat E + unat (K - 1) < 2 ^ LENGTH(64)" by simp
  then have "unat (E + (K - 1)) = unat E + unat (K - 1)"
    by (simp only: unat_add_lem)
  then have "unat ((E + (K - 1)) div K) = (unat E + unat K - 1) div unat K"
    using \<open>0 < unat K\<close> by (simp add: unat_div K1)
  then show ?thesis
    by (simp add: max_def word_le_nat_alt)
qed

lemma ctor_pow2_lines:
  assumes "false_sharing_optimized_buffer_ctor pow2 sizeof_T dflt L E = Some b"
  shows "\<exists>k<64. pow2_factory_upper L = Some (2 ^ k) \<and>
           number_of_cache_lines b
             = max (2 ^ k) ((E + (line_elements b - 1)) div line_elements b)"
    and "buffer_size b = number_of_cache_lines b * line_elements b"
    and "0 < number_of_cache_lines b"
proof -
  from assms obtain K min_lines where
    K: "elements_per_cache_line sizeof_T pow2 = Some K"
    and L: "calc_min_cache_lines pow2 L = Some min_lines"
    and shape: "buffer_shape pow2 (max min_lines ((E + (K - 1)) div K)) K b"
    by (rule ctor_shape)
  from L have U: "pow2_factory_upper L = Some min_lines" by simp
  from pow2_factory_upper_power [OF U] obtain k where k: "k < 64" "min_lines = 2 ^ k" by auto
  from shape have le: "line_elements b = K" by (simp add: buffer_shape_def)
  have n: "number_of_cache_lines b = max (2 ^ k) ((E + (K - 1)) div K)"
    using number_of_cache_lines_shape [OF shape] k by simp
  with U k le
  show "\<exists>k<64. pow2_factory_upper L = Some (2 ^ k) \<and>
           number_of_cache_lines b
             = max (2 ^ k) ((E + (line_elements b - 1)) div line_elements b)"
    by auto
  show "buffer_size b = number_of_cache_lines b * line_elements b"
    by (simp add: buffer_size_def)
  have "(0::size_t) < 2 ^ k" using k(1) by (rule pow2_positive)
  then show "0 < number_of_cache_lines b" unfolding n by (simp add: less_max_iff_disj)
qed


subsection \<open>Claims C1 and C2\<close>

text \<open>
  Claim C1, as amended.  Take a buffer with the layout of \<open>M\<close> lines of \<open>K\<close> elements
  (\<open>M\<close> is its \<open>number_of_cache_lines\<close>, \<open>K\<close> its elements per line), with at least
  one line, at least one element per line and a capacity \<open>M * K\<close> below \<open>2^64\<close>, and,
  under the \<open>pow2\<close> policy, with \<open>M\<close> and \<open>K\<close> powers of two.  Then for every index
  \<open>i\<close>, \<open>get(i)\<close> is the element of line \<open>i mod M\<close> at slot \<open>(i mod (M * K)) div M\<close>:
  the flat index is divided by the number of lines, not by the elements per line.  Two
  indices have the same cell exactly when they are congruent modulo \<open>M * K\<close>, and the
  map is a bijection from the indices below \<open>M * K\<close> onto the \<open>M * K\<close> cells.
\<close>

theorem C1_cell_of_index:
  assumes "buffer_shape size_policy M K b"
    and "0 < M" and "0 < K" and "unat M * unat K < 2 ^ 64"
    and "size_policy = pow2 \<longrightarrow> (\<exists>m k. M = 2 ^ m \<and> K = 2 ^ k)"
  shows "number_of_cache_lines b = M \<and> line_elements b = K \<and>
         cell b i = Inr (i mod M, (i mod (M * K)) div M) \<and>
         get b i = Inr (m_lines b ! unat (i mod M) ! unat ((i mod (M * K)) div M)) \<and>
         (cell b i = cell b j \<longleftrightarrow> i mod (M * K) = j mod (M * K)) \<and>
         bij_betw (\<lambda>i. (i mod M, (i mod (M * K)) div M)) {i. i < M * K}
           ({line. line < M} \<times> {slot. slot < K})"
proof -
  have c: "cell b i = Inr (i mod M, (i mod (M * K)) div M)" for i
    using assms by (rule cell_regular)
  have "number_of_cache_lines b = M"
    using assms(1) by (rule number_of_cache_lines_shape)
  moreover have "line_elements b = K"
    using assms(1) by (simp add: buffer_shape_def)
  moreover have "get b i = Inr (m_lines b ! unat (i mod M) ! unat ((i mod (M * K)) div M))"
    using c [of i] by (rule get_cell)
  moreover have "cell b i = cell b j \<longleftrightarrow> i mod (M * K) = j mod (M * K)"
    using same_cell_iff [OF assms(4), of i j] by (simp add: c)
  moreover have "bij_betw (\<lambda>i. (i mod M, (i mod (M * K)) div M)) {i. i < M * K}
           ({line. line < M} \<times> {slot. slot < K})"
    using assms(2-4) by (rule cell_bijection)
  ultimately show ?thesis using c [of i] by blast
qed

text \<open>
  The witness is the buffer of \<open>false_sharing_optimized_buffer<int, pow2>(2)\<close>: two
  lines of 16 elements.  Index 34 is in line 0 at slot 1, the cell of index 2.
\<close>

theorem C1_cell_of_index_witness:
  "false_sharing_optimized_buffer_ctor pow2 4 (0::int) 2 0 = Some
     \<lparr>line_elements = 16, m_lines = replicate 2 (replicate 16 0),
      m_mod_index = mod_indexer_pow2 1, m_div_index = div_indexer_pow2 1,
      m_mod_index2 = mod_indexer_pow2 31\<rparr> \<and>
   buffer_shape pow2 2 16
     \<lparr>line_elements = 16, m_lines = replicate 2 (replicate 16 (0::int)),
      m_mod_index = mod_indexer_pow2 1, m_div_index = div_indexer_pow2 1,
      m_mod_index2 = mod_indexer_pow2 31\<rparr> \<and>
   cell \<lparr>line_elements = 16, m_lines = replicate 2 (replicate 16 (0::int)),
      m_mod_index = mod_indexer_pow2 1, m_div_index = div_indexer_pow2 1,
      m_mod_index2 = mod_indexer_pow2 31\<rparr> 34 = Inr (0, 1) \<and>
   cell \<lparr>line_elements = 16, m_lines = replicate 2 (replicate 16 (0::int)),
      m_mod_index = mod_indexer_pow2 1, m_div_index = div_indexer_pow2 1,
      m_mod_index2 = mod_indexer_pow2 31\<rparr> 34
   = cell \<lparr>line_elements = 16, m_lines = replicate 2 (replicate 16 (0::int)),
      m_mod_index = mod_indexer_pow2 1, m_div_index = div_indexer_pow2 1,
      m_mod_index2 = mod_indexer_pow2 31\<rparr> 2"
proof -
  let ?b = "\<lparr>line_elements = 16, m_lines = replicate 2 (replicate 16 (0::int)),
      m_mod_index = mod_indexer_pow2 1, m_div_index = div_indexer_pow2 1,
      m_mod_index2 = mod_indexer_pow2 31\<rparr>"
  have ctor: "false_sharing_optimized_buffer_ctor pow2 4 (0::int) 2 0 = Some ?b"
    by code_simp
  have shape: "buffer_shape pow2 2 16 ?b"
    by code_simp
  have pw: "pow2 = pow2 \<longrightarrow> (\<exists>m k. (2::size_t) = 2 ^ m \<and> (16::size_t) = 2 ^ k)"
    by (intro impI exI [of _ 1] exI [of _ 4]) simp
  have cap: "unat (2::size_t) * unat (16::size_t) < 2 ^ 64" by simp
  have pos: "(0::size_t) < 2" "(0::size_t) < 16" by simp_all
  note inst = C1_cell_of_index [OF shape pos cap pw, of 34 2]
  from inst have c34: "cell ?b 34 = Inr (34 mod 2, (34 mod (2 * 16)) div 2)"
    by (elim conjE)
  from inst have iff: "cell ?b 34 = cell ?b 2 \<longleftrightarrow> (34::size_t) mod (2 * 16) = 2 mod (2 * 16)"
    by (elim conjE)
  have "Inr ((34::size_t) mod 2, ((34::size_t) mod (2 * 16)) div 2)
      = (Inr (0, 1) :: error + size_t \<times> size_t)" by simp
  with c34 have "cell ?b 34 = Inr (0, 1)" by (rule trans)
  moreover have "(34::size_t) mod (2 * 16) = 2 mod (2 * 16)" by simp
  with iff have "cell ?b 34 = cell ?b 2" by (rule iffD2)
  ultimately have "cell ?b 34 = Inr (0, 1)" and "cell ?b 34 = cell ?b 2" .
  with ctor shape show ?thesis by (intro conjI)
qed

text \<open>
  Claim C1 as stated divides the flat index by the elements per line.  In the buffer of
  \<open>false_sharing_optimized_buffer<int, pow2>(2)\<close> (\<open>M = 2\<close>, \<open>K = 16\<close>) the value
  written through \<open>get(2)\<close> is read back by \<open>get(2)\<close>, and it is not the element of
  line \<open>2 mod M\<close> at slot \<open>(2 mod (M * K)) div K\<close>; that formula also sends the indices
  0 and 2, which are not congruent modulo \<open>M * K\<close>, to one cell.
\<close>

theorem C1_slot_divides_by_K_counterexample:
  "\<exists>b0 b. false_sharing_optimized_buffer_ctor pow2 4 (0::int) 2 0 = Some b0 \<and>
     put b0 2 7 = Inr b \<and>
     get b 2 = Inr 7 \<and>
     get b 2 \<noteq> Inr (m_lines b ! unat (2 mod number_of_cache_lines b)
                  ! unat ((2 mod (number_of_cache_lines b * line_elements b)) div line_elements b)) \<and>
     (0 mod number_of_cache_lines b,
        (0 mod (number_of_cache_lines b * line_elements b)) div line_elements b)
     = (2 mod number_of_cache_lines b,
        (2 mod (number_of_cache_lines b * line_elements b)) div line_elements b) \<and>
     (0::size_t) mod (number_of_cache_lines b * line_elements b)
       \<noteq> 2 mod (number_of_cache_lines b * line_elements b)"
proof -
  let ?fresh = "\<lparr>line_elements = 16, m_lines = replicate 2 (replicate 16 (0::int)),
      m_mod_index = mod_indexer_pow2 1, m_div_index = div_indexer_pow2 1,
      m_mod_index2 = mod_indexer_pow2 31\<rparr>"
  let ?written = "?fresh\<lparr>m_lines := [(replicate 16 (0::int))[1 := 7], replicate 16 0]\<rparr>"
  have ctor: "false_sharing_optimized_buffer_ctor pow2 4 (0::int) 2 0 = Some ?fresh"
    by code_simp
  have wr: "put ?fresh 2 7 = Inr ?written" by code_simp
  have rd: "get ?written 2 = Inr 7" by code_simp
  have n: "number_of_cache_lines ?written = 2" and k: "line_elements ?written = 16"
    by (simp_all add: number_of_cache_lines_def)
  have z: "m_lines ?written ! unat ((2::size_t) mod 2) ! unat (((2::size_t) mod (2 * 16)) div 16) = 0"
    by code_simp
  have claimed: "get ?written 2 \<noteq> Inr (m_lines ?written ! unat (2 mod number_of_cache_lines ?written)
      ! unat ((2 mod (number_of_cache_lines ?written * line_elements ?written)) div line_elements ?written))"
    unfolding n k rd z by simp
  have same: "(0 mod number_of_cache_lines ?written,
        (0 mod (number_of_cache_lines ?written * line_elements ?written)) div line_elements ?written)
     = (2 mod number_of_cache_lines ?written,
        (2 mod (number_of_cache_lines ?written * line_elements ?written)) div line_elements ?written)"
    unfolding n k by simp
  have differ: "(0::size_t) mod (number_of_cache_lines ?written * line_elements ?written)
       \<noteq> 2 mod (number_of_cache_lines ?written * line_elements ?written)"
    unfolding n k by simp
  from ctor wr rd claimed same differ show ?thesis
    by (intro exI [of _ ?fresh] exI [of _ ?written] conjI)
qed

text \<open>
  Claim C2.  The \<open>exact\<close> part and the size are as claimed (\<open>ctor_exact_lines\<close>,
  \<open>exact_lines_ceiling\<close>, \<open>ctor_pow2_lines\<close>).  The \<open>pow2\<close> part fails:
  \<open>false_sharing_optimized_buffer<int, pow2>(1, 33)\<close> has 16 elements per line and
  allocates \<open>max(pow2_factory::upper(1), (33 + 15) / 16) = 3\<close> lines, which is not a power
  of two; \<open>size()\<close> is 48.  Its indexers are made for a power of two all the same: the
  mask of the lines is 2 and the shift is 1.
\<close>

theorem C2_pow2_lines_not_power_of_two:
  "\<exists>b. false_sharing_optimized_buffer_ctor pow2 4 (0::int) 1 33 = Some b \<and>
     line_elements b = 16 \<and>
     number_of_cache_lines b = 3 \<and>
     buffer_size b = 48 \<and>
     (\<forall>k. number_of_cache_lines b \<noteq> 2 ^ k) \<and>
     m_mod_index b = mod_indexer_pow2 2 \<and>
     m_div_index b = div_indexer_pow2 1"
proof -
  let ?b = "\<lparr>line_elements = 16, m_lines = replicate 3 (replicate 16 (0::int)),
      m_mod_index = mod_indexer_pow2 2, m_div_index = div_indexer_pow2 1,
      m_mod_index2 = mod_indexer_pow2 47\<rparr>"
  have ctor: "false_sharing_optimized_buffer_ctor pow2 4 (0::int) 1 33 = Some ?b"
    by code_simp
  have n: "number_of_cache_lines ?b = 3" by (simp add: number_of_cache_lines_def)
  have sz: "buffer_size ?b = 48" by (simp add: buffer_size_def n)
  have "(3::size_t) \<noteq> 2 ^ k" for k
  proof
    assume eq: "(3::size_t) = 2 ^ k"
    show False
    proof (cases k)
      case 0
      with eq show False by simp
    next
      case (Suc k')
      have "even ((2::size_t) ^ Suc k')" by simp
      then have "even (3::size_t)" unfolding Suc [symmetric] eq [symmetric] .
      then show False by simp
    qed
  qed
  with ctor n sz show ?thesis
    by (intro exI [of _ ?b]) simp
qed

section \<open>The barrier\<close>

lemma no_wrap_less: "(i::uint64_t) + 1 \<noteq> 0 \<Longrightarrow> i < i + 1"
  using inc_less_eq_self_iff_eq [of i] by (auto simp: not_le [symmetric])

lemma no_wrap_not_le: "(i::uint64_t) + 1 \<noteq> 0 \<Longrightarrow> \<not> i + 1 \<le> i"
  using inc_less_eq_self_iff_eq [of i] by auto

lemma confirm_write_loop_equal:
  "i + 1 \<noteq> 0 \<Longrightarrow> m_read_head w = i \<Longrightarrow>
   confirm_write_loop sched i (i + 1) i w = Some (w\<lparr>m_read_head := i + 1\<rparr>)"
  by (induction sched) (auto simp: compare_exchange_weak_def no_wrap_not_le)

lemma confirm_write_loop_greater:
  "i < m_read_head w \<Longrightarrow> confirm_write_loop sched i (i + 1) i w = Some w"
  by (cases sched) (auto simp: compare_exchange_weak_def inc_le)

lemma confirm_write_loop_less:
  "m_read_head w < i \<Longrightarrow> i + 1 \<noteq> 0 \<Longrightarrow> confirm_write_loop sched i (i + 1) i w = None"
  by (induction sched) (auto simp: compare_exchange_weak_def inc_less_eq_iff split: if_splits)

lemma confirm_write_loop_Some:
  "confirm_write_loop sched i (i + 1) i w = Some w' \<Longrightarrow>
   w' = w \<or> (m_read_head w = i \<and> w' = w\<lparr>m_read_head := i + 1\<rparr>)"
  by (induction sched) (auto simp: compare_exchange_weak_def split: if_splits)

lemma confirm_write_effect:
  assumes "confirm_write sched i w = Some w'"
  shows "w' = w \<or> (m_read_head w = i \<and> w' = w\<lparr>m_read_head := i + 1\<rparr>)"
  using assms confirm_write_loop_Some unfolding confirm_write_def by blast

lemma confirm_write_mono:
  assumes "confirm_write sched i w = Some w'" and "i + 1 \<noteq> 0"
  shows "m_read_head w \<le> m_read_head w'"
  using confirm_write_effect [OF assms(1)] no_wrap_less [OF assms(2)] by auto

lemma confirm_write_write_head:
  assumes "confirm_write sched i w = Some w'"
  shows "m_write_head w' = m_write_head w"
  using confirm_write_effect [OF assms] by auto

lemma barrier_call_step_read_head:
  assumes "barrier_call_step c a = Some b"
  shows "m_read_head b = m_read_head a \<or>
     (\<exists>sched i. c = Confirm_write sched i \<and> m_read_head a = i \<and> m_read_head b = i + 1)"
proof (cases c)
  case Get_write_index
  with assms show ?thesis by (auto simp: get_write_index_def)
next
  case Get_read_index
  with assms show ?thesis by auto
next
  case (Confirm_write sched i)
  with assms have "confirm_write sched i a = Some b" by simp
  from confirm_write_effect [OF this] Confirm_write show ?thesis by auto
qed

lemma barrier_call_step_mono:
  assumes "barrier_call_step c a = Some b"
    and "\<And>sched i. c = Confirm_write sched i \<Longrightarrow> i + 1 \<noteq> 0"
  shows "m_read_head a \<le> m_read_head b"
proof -
  from barrier_call_step_read_head [OF assms(1)]
  consider "m_read_head b = m_read_head a"
    | sched i where "c = Confirm_write sched i" "m_read_head a = i" "m_read_head b = i + 1"
    by blast
  then show ?thesis
  proof cases
    case 1
    then show ?thesis by simp
  next
    case 2
    from assms(2) [OF 2(1)] have "i < i + 1" by (rule no_wrap_less)
    with 2 show ?thesis by simp
  qed
qed

lemma barrier_run_steps:
  "(c, a, b) \<in> set (barrier_run calls w) \<Longrightarrow> barrier_call_step c a = Some b \<and> c \<in> set calls"
  by (induction calls arbitrary: w) (auto split: option.splits)

lemma barrier_run_sorted:
  "(\<And>sched i. Confirm_write sched i \<in> set calls \<Longrightarrow> i + 1 \<noteq> 0) \<Longrightarrow>
   sorted (map m_read_head (w # map (\<lambda>(c, a, b). b) (barrier_run calls w)))"
proof (induction calls arbitrary: w)
  case Nil
  show ?case by simp
next
  case (Cons c cs)
  show ?case
  proof (cases "barrier_call_step c w")
    case None
    then show ?thesis by simp
  next
    case (Some w')
    have le: "m_read_head w \<le> m_read_head w'"
      using barrier_call_step_mono [OF Some] Cons.prems by auto
    have "sorted (map m_read_head (w' # map (\<lambda>(c, a, b). b) (barrier_run cs w')))"
      by (rule Cons.IH) (use Cons.prems in auto)
    then have "sorted (m_read_head w # m_read_head w' #
        map m_read_head (map (\<lambda>(c, a, b). b) (barrier_run cs w')))"
      using le by (simp only: sorted2 list.map)
    with Some show ?thesis by simp
  qed
qed

text \<open>
  Claim C3.  A call \<open>confirm_write(written_index)\<close> on a barrier whose read head equals
  \<open>written_index\<close> sets the read head to \<open>written_index + 1\<close>, whatever attempts of the
  weak compare-and-swap fail spuriously; on a barrier whose read head is greater it
  returns with the barrier unchanged.  A call that returns has either left the barrier as
  it was or moved the read head from exactly \<open>written_index\<close> to \<open>written_index + 1\<close>,
  and has not decreased it.  Hence in every sequence of \<open>get_write_index\<close>,
  \<open>get_read_index\<close> and \<open>confirm_write\<close> calls the read heads of the successive states
  are sorted, and a call that changes the read head is a \<open>confirm_write(i)\<close> that moves
  it up from \<open>i\<close> to \<open>i + 1\<close>.

  The counters are 64-bit.  The specification assumes that they do not wrap; here this
  is the hypothesis that \<open>written_index + 1\<close> is not 0, made where it is needed.
\<close>

theorem C3_confirm_write_read_head:
  "(written_index + 1 \<noteq> 0 \<longrightarrow> m_read_head w = written_index \<longrightarrow>
      confirm_write sched written_index w = Some (w\<lparr>m_read_head := written_index + 1\<rparr>)) \<and>
   (written_index < m_read_head w \<longrightarrow> confirm_write sched written_index w = Some w) \<and>
   (confirm_write sched written_index w = Some w' \<longrightarrow>
      (w' = w \<or> (m_read_head w = written_index \<and> w' = w\<lparr>m_read_head := written_index + 1\<rparr>)) \<and>
      (written_index + 1 \<noteq> 0 \<longrightarrow> m_read_head w \<le> m_read_head w')) \<and>
   ((\<forall>s i. Confirm_write s i \<in> set calls \<longrightarrow> i + 1 \<noteq> 0) \<longrightarrow>
      sorted (map m_read_head (w # map (\<lambda>(c, a, b). b) (barrier_run calls w))) \<and>
      (\<forall>(c, a, b) \<in> set (barrier_run calls w).
         m_read_head b = m_read_head a \<or>
         (\<exists>s i. c = Confirm_write s i \<and> m_read_head a = i \<and> m_read_head b = i + 1 \<and>
                m_read_head a < m_read_head b)))"
proof -
  have equal: "confirm_write sched written_index w = Some (w\<lparr>m_read_head := written_index + 1\<rparr>)"
    if "written_index + 1 \<noteq> 0" "m_read_head w = written_index"
    using that unfolding confirm_write_def by (rule confirm_write_loop_equal)
  have greater: "confirm_write sched written_index w = Some w"
    if "written_index < m_read_head w"
    using that unfolding confirm_write_def by (rule confirm_write_loop_greater)
  have effect: "w' = w \<or> (m_read_head w = written_index \<and> w' = w\<lparr>m_read_head := written_index + 1\<rparr>)"
    if "confirm_write sched written_index w = Some w'"
    using that by (rule confirm_write_effect)
  have mono: "m_read_head w \<le> m_read_head w'"
    if "confirm_write sched written_index w = Some w'" "written_index + 1 \<noteq> 0"
    using that by (rule confirm_write_mono)
  have sorted_run: "sorted (map m_read_head (w # map (\<lambda>(c, a, b). b) (barrier_run calls w)))"
    if "\<forall>s i. Confirm_write s i \<in> set calls \<longrightarrow> i + 1 \<noteq> 0"
    by (rule barrier_run_sorted) (use that in blast)
  have single: "\<forall>(c, a, b) \<in> set (barrier_run calls w).
         m_read_head b = m_read_head a \<or>
         (\<exists>s i. c = Confirm_write s i \<and> m_read_head a = i \<and> m_read_head b = i + 1 \<and>
                m_read_head a < m_read_head b)"
    if nw: "\<forall>s i. Confirm_write s i \<in> set calls \<longrightarrow> i + 1 \<noteq> 0"
  proof (rule ballI)
    fix x
    assume x_in: "x \<in> set (barrier_run calls w)"
    obtain c a b where x: "x = (c, a, b)" by (cases x)
    from barrier_run_steps [of c a b calls w] x_in x
    have step: "barrier_call_step c a = Some b" and mem: "c \<in> set calls" by auto
    have "m_read_head b = m_read_head a \<or>
         (\<exists>s i. c = Confirm_write s i \<and> m_read_head a = i \<and> m_read_head b = i + 1 \<and>
                m_read_head a < m_read_head b)"
    proof (cases "m_read_head b = m_read_head a")
      case True
      then show ?thesis by simp
    next
      case False
      with barrier_call_step_read_head [OF step]
      obtain s i where c: "c = Confirm_write s i" and a: "m_read_head a = i"
        and b: "m_read_head b = i + 1" by auto
      from nw mem c have "i + 1 \<noteq> 0" by blast
      then have "i < i + 1" by (rule no_wrap_less)
      with c a b show ?thesis by auto
    qed
    then show "case x of (c, a, b) \<Rightarrow>
         m_read_head b = m_read_head a \<or>
         (\<exists>s i. c = Confirm_write s i \<and> m_read_head a = i \<and> m_read_head b = i + 1 \<and>
                m_read_head a < m_read_head b)"
      unfolding x by simp
  qed
  from equal greater effect mono sorted_run single show ?thesis by blast
qed

text \<open>
  The witness commits index 0 on a fresh barrier with a first attempt that fails
  spuriously, repeats the commit of index 0 when the read head is already 1, and runs a
  sequence of two reservations and three commits.
\<close>

theorem C3_confirm_write_read_head_witness:
  "(0::uint64_t) + 1 \<noteq> 0 \<and>
   m_read_head write_confirm_ctor = 0 \<and>
   confirm_write [True] 0 write_confirm_ctor = Some (write_confirm_ctor\<lparr>m_read_head := 1\<rparr>) \<and>
   (0::uint64_t) < m_read_head (write_confirm_ctor\<lparr>m_read_head := 1\<rparr>) \<and>
   confirm_write [] 0 (write_confirm_ctor\<lparr>m_read_head := 1\<rparr>)
     = Some (write_confirm_ctor\<lparr>m_read_head := 1\<rparr>) \<and>
   sorted (map m_read_head (write_confirm_ctor # map (\<lambda>(c, a, b). b)
     (barrier_run [Get_write_index, Get_write_index, Confirm_write [True] 0, Get_read_index,
                   Confirm_write [] 1, Confirm_write [] 0] write_confirm_ctor)))"
proof -
  let ?calls = "[Get_write_index, Get_write_index, Confirm_write [True] 0, Get_read_index,
                 Confirm_write [] 1, Confirm_write [] 0]"
  have h1: "(0::uint64_t) + 1 \<noteq> 0" by simp
  have h2: "m_read_head write_confirm_ctor = 0" by (simp add: write_confirm_ctor_def)
  have h3: "(0::uint64_t) < m_read_head (write_confirm_ctor\<lparr>m_read_head := 1\<rparr>)" by simp
  have h4: "\<forall>s i. Confirm_write s i \<in> set ?calls \<longrightarrow> i + 1 \<noteq> 0" by auto
  from C3_confirm_write_read_head [of 0 write_confirm_ctor "[True]" undefined ?calls] h1 h2 h4
  have c1: "confirm_write [True] 0 write_confirm_ctor = Some (write_confirm_ctor\<lparr>m_read_head := 1\<rparr>)"
    and c3: "sorted (map m_read_head (write_confirm_ctor # map (\<lambda>(c, a, b). b)
               (barrier_run ?calls write_confirm_ctor)))"
    by simp_all
  from C3_confirm_write_read_head
         [of 0 "write_confirm_ctor\<lparr>m_read_head := 1\<rparr>" "[]" undefined "[]"] h3
  have c2: "confirm_write [] 0 (write_confirm_ctor\<lparr>m_read_head := 1\<rparr>)
     = Some (write_confirm_ctor\<lparr>m_read_head := 1\<rparr>)"
    by blast
  from h1 h2 h3 c1 c2 c3 show ?thesis by blast
qed


section \<open>The single-producer / single-consumer ring\<close>

subsection \<open>Distinct cells\<close>

lemma mod_differs:
  fixes a b C :: nat
  assumes "a < b" "b - a < C"
  shows "a mod C \<noteq> b mod C"
proof
  assume "a mod C = b mod C"
  then have "b mod C = a mod C" by simp
  moreover from assms(1) have "a \<le> b" by simp
  ultimately have "C dvd b - a" by (simp only: mod_eq_dvd_iff_nat)
  moreover from assms have "0 < b - a" by simp
  ultimately have "C \<le> b - a" by (rule dvd_imp_le)
  with assms(2) show False by simp
qed

lemma regular_buffer_cells_differ:
  assumes "regular_buffer size_policy M K b"
    and "unat i < unat j" "unat j - unat i < unat (M * K)"
  shows "cell b i \<noteq> cell b j"
proof
  assume eq: "cell b i = cell b j"
  from assms(1) have cap: "unat M * unat K < 2 ^ 64" by (simp add: regular_buffer_def)
  from eq have "(i mod M, (i mod (M * K)) div M) = (j mod M, (j mod (M * K)) div M)"
    by (simp add: regular_buffer_cell [OF assms(1)])
  then have "i mod (M * K) = j mod (M * K)" by (simp only: same_cell_iff [OF cap])
  then have "unat (i mod (M * K)) = unat (j mod (M * K))" by simp
  then have "unat i mod unat (M * K) = unat j mod unat (M * K)" by (simp only: unat_mod)
  with mod_differs [OF assms(2,3)] show False by simp
qed

lemma unat_bounded:
  "unat (w :: uint64_t) < 2 ^ 64"
  using unsigned_less [of w] by simp

lemma unat_plus_nat:
  fixes t :: uint64_t
  assumes "unat t + n < 2 ^ 64"
  shows "unat (t + of_nat n) = unat t + n"
proof -
  from assms have n: "n < 2 ^ 64" by simp
  then have "unat (of_nat n :: uint64_t) = n" by (simp add: unat_of_nat)
  with assms show ?thesis using unat_add_lem [of t "of_nat n"] by simp
qed

lemma unat_Suc_word:
  fixes t :: uint64_t
  assumes "unat t + 1 < 2 ^ 64"
  shows "unat (t + 1) = unat t + 1"
  using unat_plus_nat [OF assms] by simp

lemma regular_capacity_positive:
  assumes "regular_buffer size_policy M K b"
  shows "0 < unat (M * K)"
proof -
  from assms have "0 < M" "0 < K" and cap: "unat M * unat K < 2 ^ 64"
    by (simp_all add: regular_buffer_def)
  then have "0 < unat M" "0 < unat K" by (simp_all add: word_less_nat_alt)
  then show ?thesis by (simp add: unat_capacity [OF cap])
qed


subsection \<open>push and pop on a ring that holds a queue\<close>

lemma spsc_holds_slot:
  assumes "spsc_holds size_policy M K q pending" "j \<le> length pending"
  shows "unat (m_tail_spsc q + of_nat j) = unat (m_tail_spsc q) + j"
proof -
  from assms have "unat (m_tail_spsc q) + j \<le> unat (m_head q)"
    by (simp add: spsc_holds_def)
  also have "\<dots> < 2 ^ 64" by (rule unat_bounded)
  finally show ?thesis by (rule unat_plus_nat)
qed

lemma spsc_push_holds:
  assumes holds: "spsc_holds size_policy M K q pending"
    and room: "length pending + 1 < unat (M * K)"
    and nowrap: "unat (m_head q) + 1 < 2 ^ 64"
  shows "\<exists>q'. spsc_push v q = Inr q' \<and> spsc_holds size_policy M K q' (pending @ [v]) \<and>
           unat (m_head q') = unat (m_head q) + 1"
proof -
  let ?h = "m_head q" and ?t = "m_tail_spsc q" and ?b = "m_buffer_spsc q"
  from holds have reg: "regular_buffer size_policy M K ?b"
    and cp: "m_capacity_spsc q = M * K"
    and fc: "m_free_capacity_needed_spsc q = M * K - 1"
    and ph: "m_private_head q = ?h"
    and cnt: "unat ?t + length pending = unat ?h"
    and held: "\<forall>j < length pending. get ?b (?t + of_nat j) = Inr (pending ! j)"
    by (simp_all add: spsc_holds_def)
  from room have "M * K \<noteq> 0" by auto
  then have need: "unat (M * K - 1) = unat (M * K) - 1" by (rule unat_minus_one)
  from cnt have "?t \<le> ?h" by (simp add: word_le_nat_alt)
  then have "unat (?h - ?t) = unat ?h - unat ?t" by (rule unat_sub)
  with cnt have used: "unat (?h - ?t) = length pending" by simp
  from room have free: "\<not> M * K - 1 \<le> ?h - ?t"
    by (simp add: word_le_nat_alt need used)
  from regular_buffer_put [OF reg, of ?h v] obtain b' where
    wr: "put ?b ?h v = Inr b'" and reg': "regular_buffer size_policy M K b'" by blast
  let ?q' = "spsc_update_read_head ?h (q\<lparr>m_private_head := ?h + 1, m_buffer_spsc := b'\<rparr>)"
  have run: "spsc_push v q = Inr ?q'"
    using free wr by (simp add: spsc_push_def spsc_get_free_index_def Let_def ph fc)
  have head: "unat (?h + 1) = unat ?h + 1" using nowrap by (rule unat_Suc_word)
  have top: "?t + of_nat (length pending) = ?h"
    using spsc_holds_slot [OF holds, of "length pending"] cnt
    by (simp add: word_unat_eq_iff)
  have rd: "get b' (?t + of_nat j) = Inr ((pending @ [v]) ! j)" if "j < length pending + 1" for j
  proof (cases "j < length pending")
    case True
    then have slot: "unat (?t + of_nat j) = unat ?t + j"
      using spsc_holds_slot [OF holds, of j] by simp
    with True cnt room have "unat (?t + of_nat j) < unat ?h"
      "unat ?h - unat (?t + of_nat j) < unat (M * K)" by simp_all
    with reg have "cell ?b (?t + of_nat j) \<noteq> cell ?b ?h"
      by (rule regular_buffer_cells_differ)
    with wr have "get b' (?t + of_nat j) = get ?b (?t + of_nat j)" by (rule get_put_other)
    with held True show ?thesis by (simp add: nth_append)
  next
    case False
    with that have j: "j = length pending" by simp
    from wr have "get b' ?h = Inr v" by (rule get_put_same)
    then show ?thesis by (simp add: j top)
  qed
  have "spsc_holds size_policy M K ?q' (pending @ [v])"
    unfolding spsc_holds_def spsc_update_read_head_def
    using reg' cp fc cnt room head rd by simp
  moreover have "unat (m_head ?q') = unat ?h + 1"
    by (simp add: spsc_update_read_head_def head)
  ultimately show ?thesis using run by blast
qed

lemma spsc_pop_empty_holds:
  assumes "spsc_holds size_policy M K q []"
  shows "spsc_pop moved_from out q = Inr (False, out, q)"
proof -
  from assms have "unat (m_tail_spsc q) = unat (m_head q)" by (simp add: spsc_holds_def)
  then show ?thesis by (simp add: spsc_pop_def Let_def word_le_nat_alt)
qed

lemma spsc_pop_holds:
  assumes holds: "spsc_holds size_policy M K q (p # pending)"
  shows "\<exists>q'. spsc_pop moved_from out q = Inr (True, p, q') \<and>
           spsc_holds size_policy M K q' pending \<and> m_head q' = m_head q"
proof -
  let ?h = "m_head q" and ?t = "m_tail_spsc q" and ?b = "m_buffer_spsc q"
  from holds have reg: "regular_buffer size_policy M K ?b"
    and cp: "m_capacity_spsc q = M * K"
    and fc: "m_free_capacity_needed_spsc q = M * K - 1"
    and ph: "m_private_head q = ?h"
    and cnt: "unat ?t + length pending + 1 = unat ?h"
    and len: "length pending + 1 < unat (M * K)"
    and held: "\<forall>j < length pending + 1. get ?b (?t + of_nat j) = Inr ((p # pending) ! j)"
    by (simp_all add: spsc_holds_def)
  from cnt have nonempty: "\<not> ?h \<le> ?t" by (simp add: word_le_nat_alt)
  from held have first: "get ?b ?t = Inr p" by force
  from regular_buffer_put [OF reg, of ?t "moved_from p"] obtain b' where
    wr: "put ?b ?t (moved_from p) = Inr b'" and reg': "regular_buffer size_policy M K b'"
    by blast
  let ?q' = "q\<lparr>m_buffer_spsc := b', m_tail_spsc := ?t + 1\<rparr>"
  have run: "spsc_pop moved_from out q = Inr (True, p, ?q')"
    using nonempty first wr by (simp add: spsc_pop_def Let_def)
  from cnt have "unat ?t + 1 < 2 ^ 64" using unat_bounded [of ?h] by simp
  then have tail: "unat (?t + 1) = unat ?t + 1" by (rule unat_Suc_word)
  have rd: "get b' (?t + 1 + of_nat j) = Inr (pending ! j)" if "j < length pending" for j
  proof -
    have same: "?t + 1 + of_nat j = ?t + of_nat (Suc j)" by simp
    from that have slot: "unat (?t + of_nat (Suc j)) = unat ?t + Suc j"
      using spsc_holds_slot [OF holds, of "Suc j"] by simp
    with that len have "unat ?t < unat (?t + of_nat (Suc j))"
      "unat (?t + of_nat (Suc j)) - unat ?t < unat (M * K)" by simp_all
    with reg have "cell ?b ?t \<noteq> cell ?b (?t + of_nat (Suc j))"
      by (rule regular_buffer_cells_differ)
    then have "cell ?b (?t + of_nat (Suc j)) \<noteq> cell ?b ?t" by simp
    with wr have "get b' (?t + of_nat (Suc j)) = get ?b (?t + of_nat (Suc j))"
      by (rule get_put_other)
    moreover from held that have "get ?b (?t + of_nat (Suc j)) = Inr ((p # pending) ! Suc j)"
      by (simp del: of_nat_Suc)
    ultimately show ?thesis by (simp only: same nth_Cons_Suc)
  qed
  have "spsc_holds size_policy M K ?q' pending"
    unfolding spsc_holds_def using reg' cp fc ph cnt len tail rd by simp
  with run show ?thesis by (intro exI [of _ ?q']) simp
qed

subsection \<open>First in, first out\<close>

lemma spsc_run_fifo:
  assumes "spsc_holds size_policy M K q pending"
    and "never_full (unat (M * K)) calls (length pending)"
    and "unat (m_head q) + length calls < 2 ^ 64"
  shows "\<exists>q'. spsc_run moved_from calls out q = Inr (fifo_pops calls pending, q')"
  using assms
proof (induction calls arbitrary: q pending out)
  case Nil
  then show ?case by simp
next
  case (Cons c cs)
  note holds = Cons.prems(1) and fits = Cons.prems(2) and nowrap = Cons.prems(3)
    and IH = Cons.IH
  show ?case
  proof (cases c)
    case (Push v)
    from fits Push have room: "length pending + 1 < unat (M * K)"
      and rest: "never_full (unat (M * K)) cs (length (pending @ [v]))" by simp_all
    from nowrap have "unat (m_head q) + 1 < 2 ^ 64" by simp
    from spsc_push_holds [OF holds room this, of v] obtain q1 where
      p: "spsc_push v q = Inr q1" and h1: "spsc_holds size_policy M K q1 (pending @ [v])"
      and hd: "unat (m_head q1) = unat (m_head q) + 1" by blast
    from nowrap hd have "unat (m_head q1) + length cs < 2 ^ 64" by simp
    from IH [OF h1 rest this, of out] obtain q' where
      "spsc_run moved_from cs out q1 = Inr (fifo_pops cs (pending @ [v]), q')" by blast
    with p Push show ?thesis by simp
  next
    case Pop
    show ?thesis
    proof (cases pending)
      case Nil
      with holds have e: "spsc_pop moved_from out q = Inr (False, out, q)"
        by (simp add: spsc_pop_empty_holds)
      from fits Pop Nil have rest: "never_full (unat (M * K)) cs (length pending)"
        by simp
      from nowrap have "unat (m_head q) + length cs < 2 ^ 64" by simp
      from IH [OF holds rest this, of out] obtain q' where
        "spsc_run moved_from cs out q = Inr (fifo_pops cs pending, q')" by blast
      with e Pop Nil show ?thesis by simp
    next
      case (Cons p ps)
      from spsc_pop_holds [OF holds [unfolded Cons], of moved_from out] obtain q1 where
        e: "spsc_pop moved_from out q = Inr (True, p, q1)"
        and h1: "spsc_holds size_policy M K q1 ps" and hd: "m_head q1 = m_head q" by blast
      from fits Pop Cons
      have rest: "never_full (unat (M * K)) cs (length ps)" by simp
      from nowrap hd
      have "unat (m_head q1) + length cs < 2 ^ 64" by simp
      from IH [OF h1 rest this, of p] obtain q' where
        "spsc_run moved_from cs p q1 = Inr (fifo_pops cs ps, q')" by blast
      with e Pop Cons show ?thesis by simp
    qed
  qed
qed


lemma spsc_queue_ctor_holds:
  assumes "spsc_queue_ctor size_policy sizeof_T dflt min_cache_lines min_elements = Some q"
    and "regular_buffer size_policy M K (m_buffer_spsc q)"
  shows "spsc_holds size_policy M K q []" and "m_head q = 0" and "spsc_capacity q = M * K"
proof -
  from assms(1) obtain b where
    q: "q = \<lparr>m_buffer_spsc = b, m_private_head = 0, m_head = 0, m_tail_spsc = 0,
             m_capacity_spsc = buffer_size b, m_free_capacity_needed_spsc = buffer_size b - 1\<rparr>"
    by (auto simp: spsc_queue_ctor_def split: Option.bind_splits)
  from assms(2) have "buffer_shape size_policy M K b" by (simp add: regular_buffer_def q)
  then have sz: "buffer_size b = M * K" by (rule buffer_size_shape)
  from regular_capacity_positive [OF assms(2)] assms(2) sz
  show "spsc_holds size_policy M K q []" by (simp add: spsc_holds_def q)
  show "m_head q = 0" by (simp add: q)
  from sz show "spsc_capacity q = M * K" by (simp add: spsc_capacity_def q)
qed

lemma spsc_fifo:
  assumes "spsc_queue_ctor size_policy sizeof_T dflt min_cache_lines min_elements = Some q"
    and "regular_buffer size_policy M K (m_buffer_spsc q)"
    and "never_full (unat (spsc_capacity q)) calls 0"
    and "length calls < 2 ^ 64"
  shows "\<exists>q'. spsc_run moved_from calls out q = Inr (fifo_pops calls [], q')"
proof -
  note fresh = spsc_queue_ctor_holds [OF assms(1,2)]
  from assms(3) fresh(3) have "never_full (unat (M * K)) calls (length [])" by simp
  moreover from assms(4) fresh(2) have "unat (m_head q) + length calls < 2 ^ 64" by simp
  ultimately show ?thesis using fresh(1) by (intro spsc_run_fifo)
qed

lemma fifo_pops_in_order:
  "fifo_pops calls pending
     = take (length (fifo_pops calls pending)) (pending @ pushed calls)"
proof (induction calls pending rule: fifo_pops.induct)
  case (2 v cs pending)
  then show ?case by simp
qed simp_all

lemma fifo_pops_alternating:
  "fifo_pops (concat (map (\<lambda>v. [Push v, Pop]) vs)) [] = vs"
  by (induction vs) simp_all

lemma never_full_alternating:
  "1 < C \<Longrightarrow> never_full C (concat (map (\<lambda>v. [Push v, Pop]) vs)) 0"
  by (induction vs) simp_all

lemma spsc_wrap_around:
  assumes "spsc_queue_ctor size_policy sizeof_T dflt min_cache_lines min_elements = Some q"
    and "regular_buffer size_policy M K (m_buffer_spsc q)"
    and "1 < unat (spsc_capacity q)"
    and "2 * length vs < 2 ^ 64"
  shows "\<exists>q'. spsc_run moved_from (concat (map (\<lambda>v. [Push v, Pop]) vs)) out q = Inr (vs, q')"
proof -
  let ?calls = "concat (map (\<lambda>v. [Push v, Pop]) vs)"
  have "length ?calls = 2 * length vs" by (induction vs) simp_all
  with assms(4) have "length ?calls < 2 ^ 64" by simp
  with assms(1,2) never_full_alternating [OF assms(3)]
  have "\<exists>q'. spsc_run moved_from ?calls out q = Inr (fifo_pops ?calls [], q')"
    by (rule spsc_fifo)
  then show ?thesis by (simp only: fifo_pops_alternating)
qed

lemma spsc_wrap_around_test:
  "\<exists>q q'. spsc_queue_ctor pow2 4 (0::int) 1 8 = Some q \<and> spsc_capacity q = 16 \<and>
     spsc_run id (concat (map (\<lambda>v. [Push v, Pop]) (map int [0..<5 * 16]))) 0 q
       = Inr (map int [0..<5 * 16], q')"
proof -
  let ?q = "\<lparr>m_buffer_spsc = \<lparr>line_elements = 16, m_lines = [replicate 16 (0::int)],
        m_mod_index = mod_indexer_pow2 0, m_div_index = div_indexer_pow2 0,
        m_mod_index2 = mod_indexer_pow2 15\<rparr>,
      m_private_head = 0, m_head = 0, m_tail_spsc = 0, m_capacity_spsc = 16,
      m_free_capacity_needed_spsc = 15\<rparr>"
  have ctor: "spsc_queue_ctor pow2 4 (0::int) 1 8 = Some ?q" by code_simp
  have "buffer_shape pow2 1 16 (m_buffer_spsc ?q)" by code_simp
  moreover have "\<exists>m k. (1::size_t) = 2 ^ m \<and> (16::size_t) = 2 ^ k"
    by (intro exI [of _ 0] exI [of _ 4]) simp
  ultimately have reg: "regular_buffer pow2 1 16 (m_buffer_spsc ?q)"
    by (simp add: regular_buffer_def)
  have cap: "spsc_capacity ?q = 16" by (simp add: spsc_capacity_def)
  then have big: "1 < unat (spsc_capacity ?q)" by simp
  have "2 * length (map int [0..<5 * 16]) < 2 ^ 64" by simp
  from spsc_wrap_around [OF ctor reg big this, of id 0] obtain q' where
    "spsc_run id (concat (map (\<lambda>v. [Push v, Pop]) (map int [0..<5 * 16]))) 0 ?q
       = Inr (map int [0..<5 * 16], q')" by blast
  with ctor cap show ?thesis by blast
qed

subsection \<open>A ring of three cache lines\<close>

text \<open>
  Claim C4.  The values popped are the values pushed, in order, on every ring whose
  buffer is regular (\<open>spsc_fifo\<close>, \<open>fifo_pops_in_order\<close>, \<open>spsc_wrap_around\<close>).  They are
  not on \<open>spsc_queue<int> q(1, 33)\<close>, whose buffer has three lines under the \<open>pow2\<close>
  policy and a capacity of 48: the indices 0 and 1 share a cell, so after \<open>push(10)\<close>
  and \<open>push(20)\<close> both pops return 20; and the index 32 has no cell, so of 33 rounds
  of \<open>push(i)\<close> then \<open>pop\<close> the last one writes outside its line.
\<close>

theorem C4_spsc_three_lines_not_fifo:
  "\<exists>q. spsc_queue_ctor pow2 4 (0::int) 1 33 = Some q \<and>
     spsc_capacity q = 48 \<and>
     map_sum id fst (spsc_run id [Push 10, Push 20, Pop, Pop] 0 q) = Inr [20, 20] \<and>
     fifo_pops [Push 10, Push 20, Pop, Pop] [] = [10, 20 :: int] \<and>
     never_full 48 [Push (10::int), Push 20, Pop, Pop] 0 \<and>
     spsc_run id (concat (map (\<lambda>v. [Push v, Pop]) (map int [0..<33]))) 0 q
       = Inl out_of_bounds"
proof -
  let ?q = "\<lparr>m_buffer_spsc = \<lparr>line_elements = 16,
        m_lines = replicate 3 (replicate 16 (0::int)),
        m_mod_index = mod_indexer_pow2 2, m_div_index = div_indexer_pow2 1,
        m_mod_index2 = mod_indexer_pow2 47\<rparr>,
      m_private_head = 0, m_head = 0, m_tail_spsc = 0, m_capacity_spsc = 48,
      m_free_capacity_needed_spsc = 47\<rparr>"
  have ctor: "spsc_queue_ctor pow2 4 (0::int) 1 33 = Some ?q" by code_simp
  have cap: "spsc_capacity ?q = 48" by (simp add: spsc_capacity_def)
  have run: "map_sum id fst (spsc_run id [Push 10, Push 20, Pop, Pop] 0 ?q) = Inr [20, 20]"
    by code_simp
  have ref: "fifo_pops [Push 10, Push 20, Pop, Pop] [] = [10, 20 :: int]" by simp
  have fits: "never_full 48 [Push (10::int), Push 20, Pop, Pop] 0" by simp
  have rounds: "spsc_run id (concat (map (\<lambda>v. [Push v, Pop]) (map int [0..<33]))) 0 ?q
       = Inl out_of_bounds"
    by code_simp
  from ctor cap run ref fits rounds show ?thesis
    by (intro exI [of _ ?q] conjI)
qed

section \<open>The multi-producer / single-consumer ring\<close>

lemma mpsc_pop_empty:
  "get_read_index (m_write_confirm q) \<le> m_tail_mpsc q \<Longrightarrow>
   mpsc_pop moved_from out q = Inr (False, out, q)"
  by (simp add: mpsc_pop_def)

lemma mpsc_pop_element:
  assumes "\<not> get_read_index (m_write_confirm q) \<le> m_tail_mpsc q"
    and "get (m_buffer_mpsc q) (m_tail_mpsc q) = Inr v"
  shows "\<exists>buffer. put (m_buffer_mpsc q) (m_tail_mpsc q) (moved_from v) = Inr buffer \<and>
     mpsc_pop moved_from out q
       = Inr (True, v, q\<lparr>m_buffer_mpsc := buffer, m_tail_mpsc := m_tail_mpsc q + 1\<rparr>)"
proof -
  from get_defined_put_defined [OF assms(2)] obtain buffer where
    "put (m_buffer_mpsc q) (m_tail_mpsc q) (moved_from v) = Inr buffer" by blast
  with assms show ?thesis by (simp add: mpsc_pop_def)
qed

lemma mpsc_pop_returns:
  assumes "mpsc_pop moved_from out q = Inr (ok, out', q')"
  shows "ok \<longleftrightarrow> \<not> get_read_index (m_write_confirm q) \<le> m_tail_mpsc q"
  using assms by (auto simp: mpsc_pop_def Let_def split: if_splits sum.splits)

lemma mpsc_pop_error:
  assumes "mpsc_pop moved_from out q = Inl e"
  shows "\<not> get_read_index (m_write_confirm q) \<le> m_tail_mpsc q \<and>
         get (m_buffer_mpsc q) (m_tail_mpsc q) = Inl e"
proof -
  have "False" if "get (m_buffer_mpsc q) (m_tail_mpsc q) = Inr v" for v
  proof (cases "get_read_index (m_write_confirm q) \<le> m_tail_mpsc q")
    case True
    with assms show False by (simp add: mpsc_pop_def)
  next
    case False
    from mpsc_pop_element [OF False that, of moved_from out] assms show False by auto
  qed
  with assms show ?thesis
    by (auto simp: mpsc_pop_def Let_def split: if_splits sum.splits)
qed

text \<open>
  Claim C5.  With \<open>r\<close> the barrier's read index and \<open>t\<close> the tail: when \<open>r \<le> t\<close>,
  \<open>pop\<close> returns false and leaves its argument and the queue, the tail included, as
  they were.  Otherwise it returns true with \<open>buffer[t]\<close> in its argument and the tail
  at \<open>t + 1\<close>; the slot is left in its moved-from state and nothing else changes.  A
  \<open>pop\<close> that returns has returned false exactly when \<open>r \<le> t\<close>.  The empty ring is
  never an error: the only error of \<open>pop\<close> is an access to \<open>buffer[t]\<close> that C++ leaves
  undefined, which needs \<open>r > t\<close> and does not happen on a regular buffer.
\<close>

theorem C5_mpsc_pop:
  "(get_read_index (m_write_confirm q) \<le> m_tail_mpsc q \<longrightarrow>
      mpsc_pop moved_from out q = Inr (False, out, q)) \<and>
   (\<not> get_read_index (m_write_confirm q) \<le> m_tail_mpsc q \<longrightarrow>
      get (m_buffer_mpsc q) (m_tail_mpsc q) = Inr v \<longrightarrow>
      (\<exists>buffer. put (m_buffer_mpsc q) (m_tail_mpsc q) (moved_from v) = Inr buffer \<and>
         mpsc_pop moved_from out q
           = Inr (True, v, q\<lparr>m_buffer_mpsc := buffer, m_tail_mpsc := m_tail_mpsc q + 1\<rparr>))) \<and>
   (mpsc_pop moved_from out q = Inr (ok, out', q') \<longrightarrow>
      (\<not> ok \<longleftrightarrow> get_read_index (m_write_confirm q) \<le> m_tail_mpsc q)) \<and>
   (mpsc_pop moved_from out q = Inl e \<longrightarrow>
      \<not> get_read_index (m_write_confirm q) \<le> m_tail_mpsc q \<and>
      get (m_buffer_mpsc q) (m_tail_mpsc q) = Inl e) \<and>
   (regular_buffer size_policy M K (m_buffer_mpsc q) \<longrightarrow>
      (\<exists>r. mpsc_pop moved_from out q = Inr r))"
proof -
  have "\<exists>r. mpsc_pop moved_from out q = Inr r"
    if "regular_buffer size_policy M K (m_buffer_mpsc q)"
  proof (cases "mpsc_pop moved_from out q")
    case (Inl e)
    from mpsc_pop_error [OF Inl] regular_buffer_get [OF that, of "m_tail_mpsc q"]
    show ?thesis by auto
  next
    case (Inr r)
    then show ?thesis by blast
  qed
  with mpsc_pop_empty [of q moved_from out] mpsc_pop_element [of q v moved_from out]
    mpsc_pop_returns [of moved_from out q ok out' q'] mpsc_pop_error [of moved_from out q e]
  show ?thesis by blast
qed


text \<open>
  The witness is \<open>mpsc_queue<int> q(1, 8)\<close>: one line of 16 elements.  A \<open>pop\<close> on
  the fresh queue returns false; after \<open>push(42)\<close> a \<open>pop\<close> returns true with 42 and
  the tail at 1.
\<close>

theorem C5_mpsc_pop_witness:
  "\<exists>fresh pushed.
     mpsc_queue_ctor pow2 4 (0::int) 1 8 = Some fresh \<and>
     mpsc_push [] 42 fresh = Inr pushed \<and>
     get_read_index (m_write_confirm fresh) \<le> m_tail_mpsc fresh \<and>
     mpsc_pop id 5 fresh = Inr (False, 5, fresh) \<and>
     \<not> get_read_index (m_write_confirm pushed) \<le> m_tail_mpsc pushed \<and>
     get (m_buffer_mpsc pushed) (m_tail_mpsc pushed) = Inr 42 \<and>
     mpsc_pop id 5 pushed = Inr (True, 42, pushed\<lparr>m_tail_mpsc := 1\<rparr>) \<and>
     regular_buffer pow2 1 16 (m_buffer_mpsc pushed)"
proof -
  let ?buffer = "\<lparr>line_elements = 16, m_lines = [replicate 16 (0::int)],
      m_mod_index = mod_indexer_pow2 0, m_div_index = div_indexer_pow2 0,
      m_mod_index2 = mod_indexer_pow2 15\<rparr>"
  let ?fresh = "\<lparr>m_buffer_mpsc = ?buffer, m_write_confirm = write_confirm_ctor,
      m_tail_mpsc = 0, m_capacity_mpsc = 16, m_free_capacity_needed_mpsc = 15\<rparr>"
  let ?written = "\<lparr>line_elements = 16, m_lines = [(replicate 16 (0::int))[0 := 42]],
      m_mod_index = mod_indexer_pow2 0, m_div_index = div_indexer_pow2 0,
      m_mod_index2 = mod_indexer_pow2 15\<rparr>"
  let ?pushed = "\<lparr>m_buffer_mpsc = ?written,
      m_write_confirm = \<lparr>m_write_head = 1, m_read_head = 1\<rparr>,
      m_tail_mpsc = 0, m_capacity_mpsc = 16, m_free_capacity_needed_mpsc = 15\<rparr>"
  have bctor: "false_sharing_optimized_buffer_ctor pow2 4 (0::int) 1 8 = Some ?buffer"
    by code_simp
  have ctor: "mpsc_queue_ctor pow2 4 (0::int) 1 8 = Some ?fresh"
    by code_simp
  have push: "mpsc_push [] 42 ?fresh = Inr ?pushed"
    by code_simp
  have empty: "get_read_index (m_write_confirm ?fresh) \<le> m_tail_mpsc ?fresh"
    by (simp add: get_read_index_def write_confirm_ctor_def)
  have nonempty: "\<not> get_read_index (m_write_confirm ?pushed) \<le> m_tail_mpsc ?pushed"
    by (simp add: get_read_index_def)
  have slot: "get (m_buffer_mpsc ?pushed) (m_tail_mpsc ?pushed) = Inr 42"
    by code_simp
  have "buffer_shape pow2 1 16 ?written"
    by code_simp
  then have "buffer_shape pow2 1 16 (m_buffer_mpsc ?pushed)"
    by simp
  moreover have "\<exists>m k. (1::size_t) = 2 ^ m \<and> (16::size_t) = 2 ^ k"
    by (intro exI [of _ 0] exI [of _ 4]) simp
  ultimately have regular: "regular_buffer pow2 1 16 (m_buffer_mpsc ?pushed)"
    unfolding regular_buffer_def by simp
  note fresh = C5_mpsc_pop [where q = ?fresh and moved_from = id and out = 5]
  note pushed = C5_mpsc_pop [where q = ?pushed and moved_from = id and out = 5 and v = 42]
  from fresh empty have p1: "mpsc_pop id 5 ?fresh = Inr (False, 5, ?fresh)" by blast
  from pushed nonempty slot obtain buffer where
    b: "put (m_buffer_mpsc ?pushed) (m_tail_mpsc ?pushed) (id 42) = Inr buffer"
    and p2: "mpsc_pop id 5 ?pushed
      = Inr (True, 42, ?pushed\<lparr>m_buffer_mpsc := buffer, m_tail_mpsc := m_tail_mpsc ?pushed + 1\<rparr>)"
    by blast
  have "put (m_buffer_mpsc ?pushed) (m_tail_mpsc ?pushed) (id 42) = Inr (m_buffer_mpsc ?pushed)"
    by code_simp
  with b have "buffer = m_buffer_mpsc ?pushed" by simp
  with p2 have p3: "mpsc_pop id 5 ?pushed = Inr (True, 42, ?pushed\<lparr>m_tail_mpsc := 1\<rparr>)"
    by simp
  from ctor push empty p1 nonempty slot p3 regular show ?thesis
    by (intro exI [of _ ?fresh] exI [of _ ?pushed] conjI)
qed


section \<open>The append-only vector\<close>

subsection \<open>The allocator and the active vector\<close>

lemma allocate_cases:
  obtains (succeeds) rest where "allocate allocs = (True, rest)"
  | (fails) rest where "allocate allocs = (False, rest)"
  by (cases allocs) auto

lemma allocations_succeed_allocate:
  assumes "allocations_succeed (Suc n) s"
  obtains rest where "allocate (m_allocs s) = (True, rest)" "True \<notin> set (take n rest)"
  using assms by (cases "m_allocs s") (auto simp: allocations_succeed_def)

lemma allocate_fails:
  assumes "allocate (m_allocs s) = (False, rest)"
  shows "\<not> allocations_succeed (Suc n) s"
  using assms by (cases "m_allocs s") (auto simp: allocations_succeed_def)

lemma get_current_vec_m_size:
  "get_current_vec (s\<lparr>m_size := n\<rparr>) = get_current_vec s"
  by (cases "m_current_vec s") (simp_all add: get_current_vec_def)

lemma get_current_vec_m_allocs:
  "get_current_vec (s\<lparr>m_allocs := a\<rparr>) = get_current_vec s"
  by (cases "m_current_vec s") (simp_all add: get_current_vec_def)

lemma vec_inv_m_allocs:
  "vec_inv max_size (s\<lparr>m_allocs := a\<rparr>) = vec_inv max_size s"
  by (auto simp: vec_inv_def split: option.splits)

lemma vec_linked_m_allocs:
  "vec_linked (s\<lparr>m_allocs := a\<rparr>) = vec_linked s"
  by (simp add: vec_linked_def)

lemma vec_inv_live:
  assumes "vec_inv max_size s" "get_current_vec s = Inr v"
  obtains p where "m_current_vec s = Some p" "cells (m_vecs s) p = Some v"
    "p < next_free (m_vecs s)" "length (elems v) = unat (m_size s)"
    "length (elems v) \<le> unat (cap v)" "cap v \<le> max_size"
  using assms
  by (auto simp: vec_inv_def get_current_vec_def split: option.splits)

lemma vec_invI:
  assumes "m_old_vecs s \<noteq> []" "distinct (m_old_vecs s)"
    and "\<And>p. p \<in> set (m_old_vecs s) \<Longrightarrow> p < next_free (m_vecs s) \<and> cells (m_vecs s) p \<noteq> None"
    and "m_current_vec s = Some p" "p < next_free (m_vecs s)"
    and "\<And>v. cells (m_vecs s) p = Some v \<Longrightarrow>
           length (elems v) = unat (m_size s) \<and> length (elems v) \<le> unat (cap v) \<and> cap v \<le> max_size"
  shows "vec_inv max_size s"
  using assms by (auto simp: vec_inv_def list_all_iff split: option.splits)

lemma vec_inv_archive:
  assumes "vec_inv max_size s"
  shows "m_old_vecs s \<noteq> []" "distinct (m_old_vecs s)"
    and "\<And>p. p \<in> set (m_old_vecs s) \<Longrightarrow> p < next_free (m_vecs s) \<and> cells (m_vecs s) p \<noteq> None"
    and "\<exists>p. m_current_vec s = Some p \<and> p < next_free (m_vecs s)"
  using assms by (auto simp: vec_inv_def list_all_iff split: option.splits)

lemma vector_copy_fits:
  assumes "length (elems v) \<le> unat (cap v)" "cap v \<le> max_size"
  shows "elems (vector_copy v) = elems v"
    and "unat (cap (vector_copy v)) = length (elems v)"
    and "cap (vector_copy v) \<le> cap v"
proof -
  show "elems (vector_copy v) = elems v" by (simp add: vector_copy_def)
  from assms(1) show c: "unat (cap (vector_copy v)) = length (elems v)"
    by (simp add: vector_copy_def vector_size_def le_unat_uoi)
  with assms(1) show "cap (vector_copy v) \<le> cap v" by (simp add: word_le_nat_alt)
qed


subsection \<open>A copy in the archive\<close>

lemma archived:
  assumes inv: "vec_inv max_size s" and live: "get_current_vec s = Inr v"
    and s1: "s1 = s\<lparr>m_vecs := (m_vecs s)\<lparr>cells := (cells (m_vecs s))(next_free (m_vecs s) \<mapsto> w),
                                       next_free := Suc (next_free (m_vecs s))\<rparr>,
                   m_old_vecs := m_old_vecs s @ [next_free (m_vecs s)],
                   m_allocs := rest\<rparr>"
  shows "vec_inv max_size s1" and "get_current_vec s1 = Inr v" and "m_size s1 = m_size s"
    and "m_current_vec s1 = m_current_vec s" and "\<not> vec_linked s1"
    and "m_old_vecs s1 = m_old_vecs s @ [next_free (m_vecs s)]"
proof -
  let ?n = "next_free (m_vecs s)"
  from inv live obtain p where cur: "m_current_vec s = Some p"
    and cell: "cells (m_vecs s) p = Some v" and p: "p < ?n"
    and v: "length (elems v) = unat (m_size s)" "length (elems v) \<le> unat (cap v)"
      "cap v \<le> max_size"
    by (rule vec_inv_live)
  note arch = vec_inv_archive [OF inv]
  from arch(3) have fresh: "?n \<notin> set (m_old_vecs s)" by auto
  show "vec_inv max_size s1"
  proof (rule vec_invI [where p = p])
    show "m_old_vecs s1 \<noteq> []" by (simp add: s1)
    show "distinct (m_old_vecs s1)" using arch(2) fresh by (simp add: s1)
    show "q < next_free (m_vecs s1) \<and> cells (m_vecs s1) q \<noteq> None"
      if "q \<in> set (m_old_vecs s1)" for q
      using that arch(3) [of q] by (auto simp: s1)
    show "m_current_vec s1 = Some p" by (simp add: s1 cur)
    show "p < next_free (m_vecs s1)" using p by (simp add: s1)
    show "length (elems u) = unat (m_size s1) \<and> length (elems u) \<le> unat (cap u) \<and> cap u \<le> max_size"
      if "cells (m_vecs s1) p = Some u" for u
      using that p cell v by (simp add: s1)
  qed
  show "get_current_vec s1 = Inr v" using p cell by (simp add: get_current_vec_def s1 cur)
  show "m_size s1 = m_size s" by (simp add: s1)
  show "m_current_vec s1 = m_current_vec s" by (simp add: s1)
  show "\<not> vec_linked s1" using p by (simp add: vec_linked_def s1 cur)
  show "m_old_vecs s1 = m_old_vecs s @ [next_free (m_vecs s)]" by (simp add: s1)
qed

lemma published:
  assumes inv: "vec_inv max_size s"
    and s2: "s2 = s\<lparr>m_vecs := (m_vecs s)\<lparr>cells := (cells (m_vecs s))(next_free (m_vecs s) \<mapsto> w),
                                       next_free := Suc (next_free (m_vecs s))\<rparr>,
                   m_old_vecs := m_old_vecs s @ [next_free (m_vecs s)],
                   m_allocs := rest,
                   m_current_vec := Some (next_free (m_vecs s))\<rparr>"
    and w: "length (elems w) = unat (m_size s)" "length (elems w) \<le> unat (cap w)"
      "cap w \<le> max_size"
  shows "vec_inv max_size s2" and "get_current_vec s2 = Inr w" and "m_size s2 = m_size s"
    and "vec_linked s2"
proof -
  let ?n = "next_free (m_vecs s)"
  note arch = vec_inv_archive [OF inv]
  from arch(3) have fresh: "?n \<notin> set (m_old_vecs s)" by auto
  show "vec_inv max_size s2"
  proof (rule vec_invI [where p = ?n])
    show "m_old_vecs s2 \<noteq> []" by (simp add: s2)
    show "distinct (m_old_vecs s2)" using arch(2) fresh by (simp add: s2)
    show "q < next_free (m_vecs s2) \<and> cells (m_vecs s2) q \<noteq> None"
      if "q \<in> set (m_old_vecs s2)" for q
      using that arch(3) [of q] by (auto simp: s2)
    show "m_current_vec s2 = Some ?n" by (simp add: s2)
    show "?n < next_free (m_vecs s2)" by (simp add: s2)
    show "length (elems u) = unat (m_size s2) \<and> length (elems u) \<le> unat (cap u) \<and> cap u \<le> max_size"
      if "cells (m_vecs s2) ?n = Some u" for u
      using that w by (simp add: s2)
  qed
  show "get_current_vec s2 = Inr w" by (simp add: get_current_vec_def s2)
  show "m_size s2 = m_size s" by (simp add: s2)
  show "vec_linked s2" by (simp add: vec_linked_def s2)
qed

subsection \<open>reserve\<close>

lemma reserve_cases:
  assumes inv: "vec_inv max_size s" and live: "get_current_vec s = Inr v"
  obtains
    (enough) "\<not> cap v < n" "reserve max_size n s = Ok s"
  | (copy_failed) rest where "cap v < n" "allocate (m_allocs s) = (False, rest)"
      "reserve max_size n s = Throws bad_alloc (s\<lparr>m_allocs := rest\<rparr>)"
  | (too_long) s' where "cap v < n" "max_size < n" "allocations_succeed 1 s"
      "reserve max_size n s = Throws length_error s'"
      "vec_inv max_size s'" "get_current_vec s' = Inr v" "m_size s' = m_size s"
      "m_current_vec s' = m_current_vec s" "\<not> vec_linked s'"
      "m_old_vecs s' = m_old_vecs s @ [next_free (m_vecs s)]"
  | (grow_failed) s' where "cap v < n" "n \<le> max_size" "\<not> allocations_succeed 2 s"
      "reserve max_size n s = Throws bad_alloc s'"
      "vec_inv max_size s'" "get_current_vec s' = Inr v" "m_size s' = m_size s"
      "m_current_vec s' = m_current_vec s" "\<not> vec_linked s'"
  | (moved) s' v' where "cap v < n" "n \<le> max_size" "allocations_succeed 2 s"
      "reserve max_size n s = Ok s'"
      "vec_inv max_size s'" "get_current_vec s' = Inr v'" "elems v' = elems v" "cap v' = n"
      "m_size s' = m_size s" "vec_linked s'"
proof (cases "cap v < n")
  case False
  then have "reserve max_size n s = Ok s" by (simp add: reserve_def capacity_def live)
  with False show thesis by (rule enough)
next
  case True
  let ?p = "next_free (m_vecs s)"
  let ?w = "vector_copy v"
  from inv live have v: "length (elems v) = unat (m_size s)" "length (elems v) \<le> unat (cap v)"
    "cap v \<le> max_size" by (auto elim: vec_inv_live)
  note w = vector_copy_fits [OF v(2,3)]
  from w(3) True have small: "cap ?w < n" by simp
  show thesis
  proof (cases "m_allocs s" rule: allocate_cases)
    case (fails rest)
    with True have "reserve max_size n s = Throws bad_alloc (s\<lparr>m_allocs := rest\<rparr>)"
      by (simp add: reserve_def capacity_def live create_new_vector_def)
    with True fails show thesis by (rule copy_failed)
  next
    case (succeeds rest)
    let ?s1 = "\<lambda>a. s\<lparr>m_vecs := (m_vecs s)\<lparr>cells := (cells (m_vecs s))(?p \<mapsto> ?w),
                                       next_free := Suc ?p\<rparr>,
                   m_old_vecs := m_old_vecs s @ [?p], m_allocs := a\<rparr>"
    have c: "create_new_vector v s = (Inr ?p, ?s1 rest)"
      using succeeds by (simp add: create_new_vector_def store_new_def)
    from succeeds have one: "allocations_succeed 1 s"
      by (cases "m_allocs s") (auto simp: allocations_succeed_def)
    show thesis
    proof (cases "max_size < n")
      case long: True
      then have "reserve max_size n s = Throws length_error (?s1 rest)"
        using \<open>cap v < n\<close> by (simp add: reserve_def capacity_def live c on_vec_def vector_reserve_def)
      with \<open>cap v < n\<close> long one show thesis
        using archived [where w = ?w and rest = rest, OF inv live refl] by (intro too_long [of "?s1 rest"]) simp_all
    next
      case False
      then have fits: "n \<le> max_size" by simp
      show thesis
      proof (cases rest rule: allocate_cases)
        case (fails rest')
        then have "reserve max_size n s = Throws bad_alloc (?s1 rest')"
          using \<open>cap v < n\<close> False small
          by (simp add: reserve_def capacity_def live c on_vec_def vector_reserve_def)
        moreover from succeeds fails have "\<not> allocations_succeed 2 s"
          by (cases "m_allocs s"; cases rest) (auto simp: allocations_succeed_def)
        ultimately show thesis using \<open>cap v < n\<close> fits
          using archived [where w = ?w and rest = rest', OF inv live refl]
          by (intro grow_failed [of "?s1 rest'"]) simp_all
      next
        case (succeeds rest')
        let ?w' = "?w\<lparr>cap := n\<rparr>"
        let ?s2 = "s\<lparr>m_vecs := (m_vecs s)\<lparr>cells := (cells (m_vecs s))(?p \<mapsto> ?w'),
                                       next_free := Suc ?p\<rparr>,
                   m_old_vecs := m_old_vecs s @ [?p], m_allocs := rest',
                   m_current_vec := Some ?p\<rparr>"
        have r: "reserve max_size n s = Ok ?s2"
          using succeeds \<open>cap v < n\<close> False small
          by (simp add: reserve_def capacity_def live c on_vec_def vector_reserve_def)
        from \<open>allocate (m_allocs s) = (True, rest)\<close> succeeds have two: "allocations_succeed 2 s"
          by (cases "m_allocs s"; cases rest) (auto simp: allocations_succeed_def numeral_2_eq_2)
        from small have "unat (cap ?w) < unat n" by (simp add: word_less_nat_alt)
        with w(2) v(1) have len: "length (elems ?w') = unat (m_size s)"
          "length (elems ?w') \<le> unat (cap ?w')" by (simp_all add: w(1))
        have "cap ?w' \<le> max_size" using fits by simp
        note pub = published [where rest = rest', OF inv refl len this]
        from \<open>cap v < n\<close> fits two r pub show thesis
          by (intro moved [of ?s2 ?w']) (simp_all add: w(1))
      qed
    qed
  qed
qed


lemma reserve_Ok:
  assumes "vec_inv max_size s" "get_current_vec s = Inr v" "reserve max_size n s = Ok s'"
  shows "vec_inv max_size s'"
    and "\<exists>v'. get_current_vec s' = Inr v' \<and> elems v' = elems v \<and> n \<le> cap v'"
    and "m_size s' = m_size s" and "vec_linked s \<longrightarrow> vec_linked s'"
    and "n \<le> max_size"
proof -
  from assms(1,2) have "cap v \<le> max_size" by (auto elim: vec_inv_live)
  with assms have "vec_inv max_size s' \<and>
      (\<exists>v'. get_current_vec s' = Inr v' \<and> elems v' = elems v \<and> n \<le> cap v') \<and>
      m_size s' = m_size s \<and> (vec_linked s \<longrightarrow> vec_linked s') \<and> n \<le> max_size"
    by (cases rule: reserve_cases [OF assms(1,2), of n]) auto
  then show "vec_inv max_size s'"
    and "\<exists>v'. get_current_vec s' = Inr v' \<and> elems v' = elems v \<and> n \<le> cap v'"
    and "m_size s' = m_size s" and "vec_linked s \<longrightarrow> vec_linked s'" and "n \<le> max_size"
    by blast+
qed

lemma reserve_Throws:
  assumes "vec_inv max_size s" "get_current_vec s = Inr v" "reserve max_size n s = Throws e s'"
  shows "vec_inv max_size s'" and "get_current_vec s' = Inr v" and "m_size s' = m_size s"
    and "m_current_vec s' = m_current_vec s"
    and "e = length_error \<or> e = bad_alloc"
    and "max_size < n \<or> \<not> allocations_succeed 2 s"
proof -
  have two: "\<not> allocations_succeed 2 s" if "allocate (m_allocs s) = (False, rest)" for rest
    using allocate_fails [OF that, of 1] by (simp add: numeral_2_eq_2)
  from assms have "vec_inv max_size s' \<and> get_current_vec s' = Inr v \<and> m_size s' = m_size s \<and>
      m_current_vec s' = m_current_vec s \<and>
      (e = length_error \<or> e = bad_alloc) \<and> (max_size < n \<or> \<not> allocations_succeed 2 s)"
    by (cases rule: reserve_cases [OF assms(1,2), of n])
      (auto simp: vec_inv_m_allocs get_current_vec_m_allocs dest: two)
  then show "vec_inv max_size s'" and "get_current_vec s' = Inr v" and "m_size s' = m_size s"
    and "m_current_vec s' = m_current_vec s"
    and "e = length_error \<or> e = bad_alloc"
    and "max_size < n \<or> \<not> allocations_succeed 2 s"
    by blast+
qed

lemma reserve_defined:
  assumes "vec_inv max_size s" "get_current_vec s = Inr v"
  shows "reserve max_size n s \<noteq> Undefined err"
  by (cases rule: reserve_cases [OF assms, of n]) simp_all

subsection \<open>The active vector changed in place\<close>

lemma on_current_vec_live:
  assumes "vec_inv max_size s" "get_current_vec s = Inr v"
  obtains p where "m_current_vec s = Some p" "cells (m_vecs s) p = Some v"
    "on_current_vec f s =
       (case f v (m_allocs s) of
          (Inl e, rest) \<Rightarrow> Throws e (s\<lparr>m_allocs := rest\<rparr>)
        | (Inr v', rest) \<Rightarrow>
            Ok (s\<lparr>m_vecs := (m_vecs s)\<lparr>cells := (cells (m_vecs s))(p \<mapsto> v')\<rparr>,
                  m_allocs := rest\<rparr>))"
proof -
  from assms obtain p where cur: "m_current_vec s = Some p" and cell: "cells (m_vecs s) p = Some v"
    by (rule vec_inv_live)
  then show thesis by (intro that [of p]) (simp_all add: on_current_vec_def on_vec_def)
qed

lemma replaced:
  assumes inv: "vec_inv max_size s"
    and cur: "m_current_vec s = Some p" and cell: "cells (m_vecs s) p = Some v"
    and s': "s' = s\<lparr>m_vecs := (m_vecs s)\<lparr>cells := (cells (m_vecs s))(p \<mapsto> v')\<rparr>,
                   m_allocs := rest, m_size := n\<rparr>"
    and fits: "length (elems v') = unat n" "length (elems v') \<le> unat (cap v')"
      "cap v' \<le> max_size"
  shows "vec_inv max_size s'" and "get_current_vec s' = Inr v'" and "m_size s' = n"
    and "vec_linked s' = vec_linked s"
proof -
  note arch = vec_inv_archive [OF inv]
  from arch(4) cur have p: "p < next_free (m_vecs s)" by simp
  show "vec_inv max_size s'"
  proof (rule vec_invI [where p = p])
    show "m_old_vecs s' \<noteq> []" using arch(1) by (simp add: s')
    show "distinct (m_old_vecs s')" using arch(2) by (simp add: s')
    show "q < next_free (m_vecs s') \<and> cells (m_vecs s') q \<noteq> None"
      if "q \<in> set (m_old_vecs s')" for q
      using that arch(3) [of q] by (auto simp: s')
    show "m_current_vec s' = Some p" by (simp add: s' cur)
    show "p < next_free (m_vecs s')" using p by (simp add: s')
    show "length (elems u) = unat (m_size s') \<and> length (elems u) \<le> unat (cap u) \<and> cap u \<le> max_size"
      if "cells (m_vecs s') p = Some u" for u
      using that fits by (simp add: s')
  qed
  show "get_current_vec s' = Inr v'" by (simp add: get_current_vec_def s' cur)
  show "m_size s' = n" by (simp add: s')
  show "vec_linked s' = vec_linked s" by (simp add: vec_linked_def s')
qed

lemma vector_resize_in_place:
  assumes "length (elems v) \<le> unat k" "k \<le> cap v"
  shows "vector_resize max_size dflt k v allocs
           = (Inr (v\<lparr>elems := elems v @ replicate (unat k - length (elems v)) dflt\<rparr>), allocs)"
  using assms by (auto simp: vector_resize_def word_le_nat_alt)

lemma vector_push_back_cases:
  assumes "length (elems v) \<le> unat (cap v)" "cap v \<le> max_size"
  obtains (threw) e rest where "vector_push_back max_size x v allocs = (Inl e, rest)"
      "e = length_error \<or> e = bad_alloc"
  | (appended) v' rest where "vector_push_back max_size x v allocs = (Inr v', rest)"
      "elems v' = elems v @ [x]" "length (elems v') \<le> unat (cap v')" "cap v' \<le> max_size"
proof (cases "length (elems v) < unat (cap v)")
  case True
  with assms(2) show thesis
    by (intro appended [of "v\<lparr>elems := elems v @ [x]\<rparr>" allocs]) (simp_all add: vector_push_back_def)
next
  case full: False
  show thesis
  proof (cases "unat max_size - length (elems v) < 1")
    case True
    with full show thesis by (intro threw [of length_error allocs]) (simp_all add: vector_push_back_def)
  next
    case False
    let ?c = "min (length (elems v) + max (length (elems v)) 1) (unat max_size)"
    have u: "unat (grown_capacity max_size (length (elems v)) 1) = ?c"
      unfolding grown_capacity_def by (rule le_unat_uoi [of _ max_size]) simp
    from False have room: "length (elems v) + 1 \<le> ?c" by simp
    show thesis
    proof (cases allocs rule: allocate_cases)
      case (fails rest)
      with full False show thesis
        by (intro threw [of bad_alloc rest]) (simp_all add: vector_push_back_def)
    next
      case (succeeds rest)
      let ?v' = "\<lparr>elems = elems v @ [x],
                  cap = grown_capacity max_size (length (elems v)) 1\<rparr>"
      from full False succeeds have "vector_push_back max_size x v allocs = (Inr ?v', rest)"
        by (simp add: vector_push_back_def)
      moreover have "length (elems ?v') = length (elems v) + 1"
        and "unat (cap ?v') = ?c" by (simp_all only: u vector.simps length_append list.size)
      with room have "length (elems ?v') \<le> unat (cap ?v')" by (simp only:)
      moreover have "unat (cap ?v') \<le> unat max_size"
        by (simp only: u vector.simps min.cobounded2)
      then have "cap ?v' \<le> max_size" by (simp only: word_le_nat_alt)
      ultimately show thesis by (intro appended [of ?v' rest]) simp_all
    qed
  qed
qed


subsection \<open>resize\<close>

lemma resize_throws:
  "k < spmc_size s \<Longrightarrow>
   resize max_size dflt k s
     = Throws (runtime_error ''spmc_push_vec::resize - cannot shrink'') s"
  by (simp add: resize_def)

lemma resize_cases:
  assumes inv: "vec_inv max_size s" and live: "get_current_vec s = Inr v"
    and grow: "\<not> k < spmc_size s"
  obtains
    (grown) s' v' where "resize max_size dflt k s = Ok s'" "k \<le> max_size"
      "vec_inv max_size s'" "get_current_vec s' = Inr v'"
      "elems v' = elems v @ replicate (unat k - length (elems v)) dflt" "m_size s' = k"
      "vec_linked s \<longrightarrow> vec_linked s'"
  | (failed) e s' where "resize max_size dflt k s = Throws e s'"
      "e = length_error \<or> e = bad_alloc" "max_size < k \<or> \<not> allocations_succeed 2 s"
      "vec_inv max_size s'" "get_current_vec s' = Inr v" "m_size s' = m_size s"
      "m_current_vec s' = m_current_vec s"
proof (cases "reserve max_size k s")
  case (Ok s1)
  note r = reserve_Ok [OF inv live Ok]
  from r(2) obtain v1 where live1: "get_current_vec s1 = Inr v1" and e1: "elems v1 = elems v"
    and c1: "k \<le> cap v1" by blast
  from inv live have len: "length (elems v) = unat (m_size s)" by (auto elim: vec_inv_live)
  from grow have le: "length (elems v) \<le> unat k"
    by (simp add: spmc_size_def len word_le_nat_alt word_less_nat_alt)
  from r(1) live1 have c1': "cap v1 \<le> max_size" by (auto elim: vec_inv_live)
  let ?v' = "v1\<lparr>elems := elems v1 @ replicate (unat k - length (elems v1)) dflt\<rparr>"
  from le c1 have f: "vector_resize max_size dflt k v1 (m_allocs s1) = (Inr ?v', m_allocs s1)"
    by (intro vector_resize_in_place) (simp_all add: e1)
  from r(1) live1 obtain p where cur: "m_current_vec s1 = Some p"
    and cell: "cells (m_vecs s1) p = Some v1"
    and run: "on_current_vec (vector_resize max_size dflt k) s1 =
       (case vector_resize max_size dflt k v1 (m_allocs s1) of
          (Inl e, rest) \<Rightarrow> Throws e (s1\<lparr>m_allocs := rest\<rparr>)
        | (Inr v', rest) \<Rightarrow>
            Ok (s1\<lparr>m_vecs := (m_vecs s1)\<lparr>cells := (cells (m_vecs s1))(p \<mapsto> v')\<rparr>,
                   m_allocs := rest\<rparr>))"
    by (rule on_current_vec_live)
  let ?s' = "s1\<lparr>m_vecs := (m_vecs s1)\<lparr>cells := (cells (m_vecs s1))(p \<mapsto> ?v')\<rparr>,
                 m_allocs := m_allocs s1, m_size := k\<rparr>"
  from grow Ok run f have res: "resize max_size dflt k s = Ok ?s'" by (simp add: resize_def)
  from le have l1: "length (elems ?v') = unat k" by (simp add: e1)
  from c1 have "unat k \<le> unat (cap ?v')" by (simp add: word_le_nat_alt)
  then have l2: "length (elems ?v') \<le> unat (cap ?v')" unfolding l1 .
  from c1' have l3: "cap ?v' \<le> max_size" by simp
  note rep = replaced [where rest = "m_allocs s1", OF r(1) cur cell refl l1 l2 l3]
  from c1 c1' have "k \<le> max_size" by simp
  with res rep r(4) show thesis by (intro grown [of ?s' ?v']) (simp_all add: e1)
next
  case (Throws e s1)
  note r = reserve_Throws [OF inv live Throws]
  from grow Throws have "resize max_size dflt k s = Throws e s1" by (simp add: resize_def)
  with r show thesis by (intro failed [of e s1])
next
  case (Undefined err)
  with reserve_defined [OF inv live] show thesis by blast
qed

subsection \<open>push_back\<close>

lemma push_back_cases:
  assumes inv: "vec_inv max_size s" and live: "get_current_vec s = Inr v"
  obtains
    (pushed) s' v' where "push_back max_size x s = Ok s'"
      "vec_inv max_size s'" "get_current_vec s' = Inr v'" "elems v' = elems v @ [x]"
      "unat (m_size s') = unat (m_size s) + 1" "vec_linked s \<longrightarrow> vec_linked s'"
  | (failed) e s' v' where "push_back max_size x s = Throws e s'"
      "e = length_error \<or> e = bad_alloc"
      "vec_inv max_size s'" "get_current_vec s' = Inr v'" "elems v' = elems v"
      "m_size s' = m_size s"
proof -
  let ?r = "if spmc_size s \<ge> cap v then reserve max_size (cap v * 2) s else Ok s"
  have pb: "push_back max_size x s =
      (case ?r of
         Ok s1 \<Rightarrow>
           (case on_current_vec (vector_push_back max_size x) s1 of
              Ok s2 \<Rightarrow> Ok (s2\<lparr>m_size := spmc_size s + 1\<rparr>)
            | other \<Rightarrow> other)
       | other \<Rightarrow> other)"
    by (simp add: push_back_def capacity_def live Let_def)
  from inv live have len: "length (elems v) = unat (m_size s)" by (auto elim: vec_inv_live)
  show thesis
  proof (cases ?r)
    case (Ok s1)
    have "vec_inv max_size s1 \<and> (\<exists>v1. get_current_vec s1 = Inr v1 \<and> elems v1 = elems v) \<and>
        m_size s1 = m_size s \<and> (vec_linked s \<longrightarrow> vec_linked s1)"
    proof (cases "spmc_size s \<ge> cap v")
      case True
      with Ok have "reserve max_size (cap v * 2) s = Ok s1" by simp
      from reserve_Ok [OF inv live this] show ?thesis by blast
    next
      case False
      with Ok inv live show ?thesis by simp
    qed
    then obtain v1 where inv1: "vec_inv max_size s1" and live1: "get_current_vec s1 = Inr v1"
      and e1: "elems v1 = elems v" and sz1: "m_size s1 = m_size s"
      and link1: "vec_linked s \<longrightarrow> vec_linked s1" by blast
    from inv1 live1 have fit1: "length (elems v1) \<le> unat (cap v1)" "cap v1 \<le> max_size"
      by (auto elim: vec_inv_live)
    from inv1 live1 obtain p where cur: "m_current_vec s1 = Some p"
      and cell: "cells (m_vecs s1) p = Some v1"
      and run: "on_current_vec (vector_push_back max_size x) s1 =
         (case vector_push_back max_size x v1 (m_allocs s1) of
            (Inl e, rest) \<Rightarrow> Throws e (s1\<lparr>m_allocs := rest\<rparr>)
          | (Inr v', rest) \<Rightarrow>
              Ok (s1\<lparr>m_vecs := (m_vecs s1)\<lparr>cells := (cells (m_vecs s1))(p \<mapsto> v')\<rparr>,
                     m_allocs := rest\<rparr>))"
      by (rule on_current_vec_live)
    from fit1 show thesis
    proof (cases rule: vector_push_back_cases [where x = x and allocs = "m_allocs s1"])
      case (threw e rest)
      let ?s' = "s1\<lparr>m_allocs := rest\<rparr>"
      from threw pb Ok run have "push_back max_size x s = Throws e ?s'" by simp
      moreover from inv1 have "vec_inv max_size ?s'" by (simp only: vec_inv_m_allocs)
      moreover from live1 have "get_current_vec ?s' = Inr v1"
        by (simp only: get_current_vec_m_allocs)
      moreover from sz1 have "m_size ?s' = m_size s" by simp
      ultimately show thesis using threw(2) e1 by (intro failed [of e ?s' v1])
    next
      case (appended v' rest)
      let ?s' = "s1\<lparr>m_vecs := (m_vecs s1)\<lparr>cells := (cells (m_vecs s1))(p \<mapsto> v')\<rparr>,
                     m_allocs := rest, m_size := m_size s + 1\<rparr>"
      from appended pb Ok run have res: "push_back max_size x s = Ok ?s'"
        by (simp add: spmc_size_def)
      from appended(2) have l: "length (elems v') = unat (m_size s) + 1" by (simp add: e1 len)
      with appended(3) unat_bounded [of "cap v'"] have "unat (m_size s) + 1 < 2 ^ 64" by simp
      then have u: "unat (m_size s + 1) = unat (m_size s) + 1" by (rule unat_Suc_word)
      with l have l1: "length (elems v') = unat (m_size s + 1)" by simp
      note rep = replaced [where rest = rest, OF inv1 cur cell refl l1 appended(3,4)]
      from rep(3) u have "unat (m_size ?s') = unat (m_size s) + 1" by simp
      with res rep(1,2) appended(2) e1 link1 rep(4) show thesis
        by (intro pushed [of ?s' v']) simp_all
    qed
  next
    case (Throws e s1)
    then have r: "reserve max_size (cap v * 2) s = Throws e s1"
      by (simp split: if_splits)
    note t = reserve_Throws [OF inv live r]
    from Throws pb have "push_back max_size x s = Throws e s1" by simp
    with t show thesis by (intro failed [of e s1 v]) simp_all
  next
    case (Undefined err)
    then have "reserve max_size (cap v * 2) s = Undefined err" by (simp split: if_splits)
    with reserve_defined [OF inv live] show thesis by blast
  qed
qed

subsection \<open>drop_old\<close>

lemma drop_old_inv:
  assumes inv: "vec_inv max_size s"
  obtains s' where "drop_old s = Ok s'" "vec_inv max_size s'"
    "m_old_vecs s' = [last (m_old_vecs s)]" "m_current_vec s' = m_current_vec s"
    "m_size s' = m_size s"
    "\<forall>p. cells (m_vecs s') p
        = (if p \<in> set (butlast (m_old_vecs s)) then None else cells (m_vecs s) p)"
proof -
  note arch = vec_inv_archive [OF inv]
  let ?p = "last (m_old_vecs s)"
  let ?s' = "s\<lparr>m_old_vecs := [?p],
      m_vecs := (m_vecs s)\<lparr>cells := (\<lambda>p. if p \<in> set (butlast (m_old_vecs s)) then None
                                       else cells (m_vecs s) p)\<rparr>\<rparr>"
  have run: "drop_old s = Ok ?s'" using arch(1) by (simp add: drop_old_def Let_def)
  from arch(1,2) have "distinct (butlast (m_old_vecs s) @ [?p])" by simp
  then have keep: "?p \<notin> set (butlast (m_old_vecs s))" by (simp only: distinct_append) auto
  from arch(1) have "?p \<in> set (m_old_vecs s)" by simp
  with arch(3) have lastp: "?p < next_free (m_vecs s)" "cells (m_vecs s) ?p \<noteq> None" by auto
  from arch(4) obtain c where cur: "m_current_vec s = Some c" and c: "c < next_free (m_vecs s)"
    by blast
  have "vec_inv max_size ?s'"
  proof (rule vec_invI [where p = c])
    show "m_old_vecs ?s' \<noteq> []" by simp
    show "distinct (m_old_vecs ?s')" by simp
    show "q < next_free (m_vecs ?s') \<and> cells (m_vecs ?s') q \<noteq> None"
      if "q \<in> set (m_old_vecs ?s')" for q
      using that keep lastp by simp
    show "m_current_vec ?s' = Some c" by (simp add: cur)
    show "c < next_free (m_vecs ?s')" using c by simp
    show "length (elems u) = unat (m_size ?s') \<and> length (elems u) \<le> unat (cap u) \<and> cap u \<le> max_size"
      if "cells (m_vecs ?s') c = Some u" for u
    proof -
      from that have "cells (m_vecs s) c = Some u" by (simp split: if_splits)
      with inv cur show ?thesis by (simp add: vec_inv_def)
    qed
  qed
  with run show thesis by (intro that [of ?s']) simp_all
qed

lemma drop_old_linked:
  assumes inv: "vec_inv max_size s" and linked: "vec_linked s"
  obtains s' where "drop_old s = Ok s'" "vec_inv max_size s'" "vec_linked s'"
    "m_old_vecs s' = [last (m_old_vecs s)]" "m_current_vec s' = m_current_vec s"
    "get_current_vec s' = get_current_vec s" "m_size s' = m_size s"
proof -
  from inv obtain s' where d: "drop_old s = Ok s'" "vec_inv max_size s'"
    "m_old_vecs s' = [last (m_old_vecs s)]" "m_current_vec s' = m_current_vec s"
    "m_size s' = m_size s"
    and cells: "\<forall>p. cells (m_vecs s') p
        = (if p \<in> set (butlast (m_old_vecs s)) then None else cells (m_vecs s) p)"
    by (rule drop_old_inv)
  note arch = vec_inv_archive [OF inv]
  let ?p = "last (m_old_vecs s)"
  from linked have cur: "m_current_vec s = Some ?p" by (simp add: vec_linked_def)
  from arch(1,2) have "distinct (butlast (m_old_vecs s) @ [?p])" by simp
  then have keep: "?p \<notin> set (butlast (m_old_vecs s))" by (simp only: distinct_append) auto
  have "get_current_vec s' = get_current_vec s"
    using keep by (simp add: get_current_vec_def d(4) cur cells)
  moreover have "vec_linked s'" by (simp add: vec_linked_def d(3,4) cur)
  ultimately show thesis using d by (intro that [of s'])
qed


subsection \<open>The invariant of the reachable states\<close>








subsection \<open>The archive and the active vector\<close>

lemma linked_live:
  assumes "vec_inv max_size s" "vec_linked s"
  shows "\<exists>v. get_current_vec s = Inr v"
proof -
  note arch = vec_inv_archive [OF assms(1)]
  from arch(1) have "last (m_old_vecs s) \<in> set (m_old_vecs s)" by simp
  with arch(3) have "cells (m_vecs s) (last (m_old_vecs s)) \<noteq> None" by blast
  with assms(2) show ?thesis by (auto simp: get_current_vec_def vec_linked_def)
qed

lemma vec_call_step_linked:
  assumes inv: "vec_inv max_size s" and linked: "vec_linked s"
    and step: "vec_call_step max_size dflt c s = Ok s'"
  shows "vec_linked s'"
proof -
  from linked_live [OF inv linked] obtain v where live: "get_current_vec s = Inr v" ..
  have pb: "vec_linked s'" if "push_back max_size x s = Ok s'" for x
    using that linked by (cases rule: push_back_cases [OF inv live, of x]) auto
  show ?thesis
  proof (cases c)
    case (Push_back x)
    with step pb [of x] show ?thesis by simp
  next
    case (Emplace_back x)
    with step pb [of x] show ?thesis by (simp add: emplace_back_def)
  next
    case (Reserve n)
    with step reserve_Ok(4) [OF inv live, of n s'] linked show ?thesis by simp
  next
    case (Resize k)
    show ?thesis
    proof (cases "k < spmc_size s")
      case True
      with step Resize show ?thesis by (simp add: resize_throws)
    next
      case False
      with step Resize linked show ?thesis
        by (cases rule: resize_cases [OF inv live False, of dflt]) auto
    qed
  next
    case Drop_old
    from inv linked obtain s1 where "drop_old s = Ok s1" "vec_linked s1"
      by (rule drop_old_linked)
    with step Drop_old show ?thesis by simp
  qed
qed

lemma caught_reserve_then_drop_old:
  assumes inv: "vec_inv max_size s" and linked: "vec_linked s"
    and long: "max_size < n" and alloc: "allocations_succeed 1 s"
  shows "\<exists>s1 s2. reserve max_size n s = Throws length_error s1 \<and>
           m_current_vec s1 = m_current_vec s \<and> get_current_vec s1 = get_current_vec s \<and>
           last (m_old_vecs s1) \<noteq> last (m_old_vecs s) \<and>
           drop_old s1 = Ok s2 \<and> get_current_vec s2 = Inl invalid_pointer"
proof -
  from linked_live [OF inv linked] obtain v where live: "get_current_vec s = Inr v" ..
  from inv live have capv: "cap v \<le> max_size" by (auto elim: vec_inv_live)
  from alloc obtain rest where ok: "allocate (m_allocs s) = (True, rest)"
    by (auto simp: numeral_1_eq_Suc_0 elim: allocations_succeed_allocate [of 0 s])
  let ?p = "last (m_old_vecs s)"
  from linked have cur: "m_current_vec s = Some ?p" and ne: "m_old_vecs s \<noteq> []"
    by (simp_all add: vec_linked_def)
  note arch = vec_inv_archive [OF inv]
  from ne have "?p \<in> set (m_old_vecs s)" by simp
  from arch(3) [OF this] have fresh: "?p \<noteq> next_free (m_vecs s)" by simp
  from inv live show ?thesis
  proof (cases rule: reserve_cases [where n = n])
    case (too_long s1)
    from too_long(5) obtain s2 where d: "drop_old s1 = Ok s2"
      "m_current_vec s2 = m_current_vec s1"
      and cells: "\<forall>p. cells (m_vecs s2) p
        = (if p \<in> set (butlast (m_old_vecs s1)) then None else cells (m_vecs s1) p)"
      by (rule drop_old_inv)
    from ne have "?p \<in> set (butlast (m_old_vecs s1))" by (simp add: too_long(10))
    with cells have "cells (m_vecs s2) ?p = None" by simp
    then have "get_current_vec s2 = Inl invalid_pointer"
      by (simp add: get_current_vec_def d(2) too_long(8) cur)
    moreover from fresh have "last (m_old_vecs s1) \<noteq> ?p" by (simp add: too_long(10))
    ultimately show ?thesis using too_long(4,6,8) live d(1) by auto
  next
    case enough
    with capv long show ?thesis by simp
  next
    case (copy_failed rest')
    with ok show ?thesis by simp
  next
    case (grow_failed s1)
    with long show ?thesis by simp
  next
    case (moved s1 v1)
    with long show ?thesis by simp
  qed
qed


subsection \<open>Claim C6: resize\<close>





subsection \<open>Claim C10: the archive of backing arrays\<close>

text \<open>
  Claim C10.  While every call returns, \<open>m_old_vecs\<close> is not empty and its last entry is
  the live vector \<open>m_current_vec\<close> points to, and \<open>drop_old\<close> keeps it (\<open>ctor_inv\<close>,
  \<open>vec_call_step_linked\<close>, \<open>linked_live\<close>, \<open>drop_old_linked\<close>).  An exception breaks
  this.  \<open>reserve\<close> puts the copy into \<open>m_old_vecs\<close>, then calls \<open>reserve\<close> on the
  copy, and only then stores \<open>m_current_vec\<close>; when the middle step throws, the last entry
  of the archive is a copy that is not the active vector.

  On \<open>spmc_push_vec<int> v(2)\<close> with \<open>max_size() = 2^61 - 1\<close> and every allocation
  succeeding: after \<open>push_back(1)\<close>, the call \<open>reserve(SIZE_MAX)\<close> throws
  \<open>std::length_error\<close> and leaves two vectors in the archive, the active one first.
  The caller catches the exception; \<open>v[0]\<close> still reads 1.  Then \<open>drop_old()\<close> keeps
  the copy and destroys the active vector: \<open>m_current_vec\<close> dangles and \<open>v[0]\<close> is an
  access to a destroyed vector.  The same happens in every state in which the active
  vector is the last entry, for every \<open>max_size()\<close> below the argument
  (\<open>caught_reserve_then_drop_old\<close>).
\<close>

theorem C10_drop_old_destroys_active_vector:
  "\<exists>s0 s1 s2 s3.
     spmc_push_vec_ctor (2 ^ 61 - 1) [] 2 = Ok s0 \<and>
     push_back (2 ^ 61 - 1) (1::int) s0 = Ok s1 \<and>
     reserve (2 ^ 61 - 1) (- 1) s1 = Throws length_error s2 \<and>
     m_old_vecs s2 = [0, 1] \<and> m_current_vec s2 = Some 0 \<and>
     last (m_old_vecs s2) = 1 \<and>
     at_index s2 0 = Inr 1 \<and>
     drop_old s2 = Ok s3 \<and>
     m_old_vecs s3 = [1] \<and> m_current_vec s3 = Some 0 \<and>
     cells (m_vecs s3) 0 = None \<and>
     get_current_vec s3 = Inl invalid_pointer \<and>
     at_index s3 0 = Inl invalid_pointer"
proof -
  let ?fresh = "\<lparr>m_old_vecs = [0], m_current_vec = Some 0, m_size = 0,
      m_vecs = \<lparr>cells = [0 \<mapsto> \<lparr>elems = [] :: int list, cap = 2\<rparr>], next_free = 1\<rparr>,
      m_allocs = []\<rparr>"
  let ?pushed = "\<lparr>m_old_vecs = [0], m_current_vec = Some 0, m_size = 1,
      m_vecs = \<lparr>cells = [0 \<mapsto> \<lparr>elems = [1 :: int], cap = 2\<rparr>], next_free = 1\<rparr>,
      m_allocs = []\<rparr>"
  let ?caught = "\<lparr>m_old_vecs = [0, 1], m_current_vec = Some 0, m_size = 1,
      m_vecs = \<lparr>cells = [0 \<mapsto> \<lparr>elems = [1 :: int], cap = 2\<rparr>,
                         1 \<mapsto> \<lparr>elems = [1], cap = 1\<rparr>], next_free = 2\<rparr>,
      m_allocs = []\<rparr>"
  let ?dropped = "?caught\<lparr>m_old_vecs := [1],
      m_vecs := \<lparr>cells = (\<lambda>p. if p \<in> set (butlast [0, 1 :: nat]) then None
                             else [0 \<mapsto> \<lparr>elems = [1 :: int], cap = 2\<rparr>,
                                   1 \<mapsto> \<lparr>elems = [1], cap = 1\<rparr>] p),
                next_free = 2\<rparr>\<rparr>"
  note eval = spmc_push_vec_ctor_def create_new_vector_def on_current_vec_def on_vec_def
    store_new_def store_empty_def vector_ctor_def vector_copy_def vector_size_def
    vector_reserve_def vector_push_back_def push_back_def reserve_def
    capacity_def get_current_vec_def spmc_size_def word_le_nat_alt word_less_nat_alt
    unsigned_minus_1_eq_mask mask_eq_exp_minus_1
  have ctor: "spmc_push_vec_ctor (2 ^ 61 - 1) [] 2 = Ok ?fresh" by (simp add: eval)
  have push: "push_back (2 ^ 61 - 1) 1 ?fresh = Ok ?pushed" by (simp add: eval)
  have throws: "reserve (2 ^ 61 - 1) (- 1) ?pushed = Throws length_error ?caught"
    by (simp add: eval)
  have before: "at_index ?caught 0 = Inr 1" by (simp add: at_index_def get_current_vec_def)
  have drop: "drop_old ?caught = Ok ?dropped" by (simp add: drop_old_def fun_eq_iff)
  have gone: "cells (m_vecs ?dropped) 0 = None" by simp
  then have dangling: "get_current_vec ?dropped = Inl invalid_pointer"
    by (simp add: get_current_vec_def)
  then have after: "at_index ?dropped 0 = Inl invalid_pointer" by (simp add: at_index_def)
  have fields: "m_old_vecs ?caught = [0, 1]" "m_current_vec ?caught = Some 0"
    "last (m_old_vecs ?caught) = 1" "m_old_vecs ?dropped = [1]" "m_current_vec ?dropped = Some 0"
    by simp_all
  from ctor push throws fields(1,2,3) before drop fields(4,5) gone dangling after
  show ?thesis
    by (intro exI [of _ ?fresh] exI [of _ ?pushed] exI [of _ ?caught] exI [of _ ?dropped] conjI)
qed

section \<open>The fan-out ring\<close>

subsection \<open>Late subscription\<close>

lemma subscribe_handle:
  assumes "subscribe q = (p, q1)"
  shows "cells (m_handles q1) p
           = Some \<lparr>m_tail_handle = get_read_index (m_write_confirmer q), m_subscribed = True\<rparr>"
    and "m_write_confirmer q1 = m_write_confirmer q"
    and "m_buffer_fanout q1 = m_buffer_fanout q"
    and "m_subscriptions q1 = m_subscriptions q @ [p]"
    and "p = next_free (m_handles q)"
  using assms
  by (auto simp: subscribe_def store_new_def subscription_handle_ctor_def)

lemma handle_pop_empty:
  assumes "cells (m_handles q) p = Some h"
    and "get_read_index (m_write_confirmer q) \<le> m_tail_handle h"
  shows "subscription_handle_pop p out q = Inr (False, out, q)"
  using assms by (simp add: subscription_handle_pop_def)

lemma handle_pop_element:
  assumes "cells (m_handles q) p = Some h"
    and "\<not> get_read_index (m_write_confirmer q) \<le> m_tail_handle h"
    and "get (m_buffer_fanout q) (m_tail_handle h) = Inr v"
  shows "subscription_handle_pop p out q
     = Inr (True, v, q\<lparr>m_handles := (m_handles q)
              \<lparr>cells := (cells (m_handles q))(p \<mapsto> h\<lparr>m_tail_handle := m_tail_handle h + 1\<rparr>)\<rparr>\<rparr>)"
  using assms by (simp add: subscription_handle_pop_def)

lemma handle_pop_True:
  assumes "subscription_handle_pop p out q = Inr (True, x, q')"
  shows "\<exists>h. cells (m_handles q) p = Some h \<and>
           m_tail_handle h < get_read_index (m_write_confirmer q) \<and>
           get (m_buffer_fanout q) (m_tail_handle h) = Inr x \<and>
           cells (m_handles q') p = Some (h\<lparr>m_tail_handle := m_tail_handle h + 1\<rparr>)"
  using assms
  by (auto simp: subscription_handle_pop_def Let_def split: option.splits if_splits sum.splits)

lemma mpmc_push_quiescent:
  assumes push: "mpmc_push sched v q = Inr q2"
    and quiet: "m_write_head (m_write_confirmer q) = m_read_head (m_write_confirmer q)"
    and nowrap: "m_read_head (m_write_confirmer q) + 1 \<noteq> 0"
  shows "get (m_buffer_fanout q2) (m_read_head (m_write_confirmer q)) = Inr v"
    and "m_read_head (m_write_confirmer q2) = m_read_head (m_write_confirmer q) + 1"
    and "m_write_head (m_write_confirmer q2) = m_read_head (m_write_confirmer q2)"
    and "m_handles q2 = m_handles q"
    and "m_subscriptions q2 = m_subscriptions q"
proof -
  let ?w = "m_write_confirmer q"
  let ?i = "m_read_head ?w"
  let ?w1 = "?w\<lparr>m_write_head := m_write_head ?w + 1\<rparr>"
  from push obtain buffer w2 where
    put: "put (m_buffer_fanout q) (m_write_head ?w) v = Inr buffer"
    and cw: "confirm_write sched (m_write_head ?w) ?w1 = Some w2"
    and q2: "q2 = q\<lparr>m_write_confirmer := w2, m_buffer_fanout := buffer\<rparr>"
    by (auto simp: mpmc_push_def mpmc_get_free_index_def mpmc_update_read_head_def
        get_write_index_def split: if_splits sum.splits option.splits)
  have "confirm_write sched ?i ?w1 = Some (?w1\<lparr>m_read_head := ?i + 1\<rparr>)"
    unfolding confirm_write_def using nowrap by (intro confirm_write_loop_equal) simp_all
  with cw quiet have w2: "w2 = ?w1\<lparr>m_read_head := ?i + 1\<rparr>" by simp
  show "get (m_buffer_fanout q2) ?i = Inr v"
    using get_put_same [OF put] quiet by (simp add: q2)
  show "m_read_head (m_write_confirmer q2) = ?i + 1" by (simp add: q2 w2)
  show "m_write_head (m_write_confirmer q2) = m_read_head (m_write_confirmer q2)"
    using quiet by (simp add: q2 w2)
  show "m_handles q2 = m_handles q" by (simp add: q2)
  show "m_subscriptions q2 = m_subscriptions q" by (simp add: q2)
qed

text \<open>
  Claim C7.  \<open>subscribe()\<close> makes a handle whose tail is the barrier's read index at
  that moment, and leaves barrier and buffer alone.  A \<open>pop\<close> through the new handle
  right away returns false and changes nothing.  When no reservation is in flight
  (write head and read head agree) and one further \<open>push(v)\<close> returns, the next \<open>pop\<close>
  through the handle returns true with \<open>v\<close> and moves the handle's tail one past the
  read index of the subscription.  Every successful \<open>pop\<close> through a handle reads the
  slot of the handle's tail, below the read index, and advances the tail by one: a handle
  never reads an index below the read index at which it subscribed.
\<close>

theorem C7_late_subscription:
  "(subscribe q = (p, q1) \<longrightarrow>
      cells (m_handles q1) p
        = Some \<lparr>m_tail_handle = get_read_index (m_write_confirmer q), m_subscribed = True\<rparr> \<and>
      m_write_confirmer q1 = m_write_confirmer q \<and>
      m_buffer_fanout q1 = m_buffer_fanout q \<and>
      subscription_handle_pop p out q1 = Inr (False, out, q1) \<and>
      (m_write_head (m_write_confirmer q) = m_read_head (m_write_confirmer q) \<longrightarrow>
       m_read_head (m_write_confirmer q) + 1 \<noteq> 0 \<longrightarrow>
       mpmc_push sched v q1 = Inr q2 \<longrightarrow>
         (\<exists>q3. subscription_handle_pop p out q2 = Inr (True, v, q3) \<and>
            cells (m_handles q3) p
              = Some \<lparr>m_tail_handle = get_read_index (m_write_confirmer q) + 1,
                      m_subscribed = True\<rparr>))) \<and>
   (subscription_handle_pop p' out q' = Inr (True, x, q'') \<longrightarrow>
      (\<exists>h. cells (m_handles q') p' = Some h \<and>
         m_tail_handle h < get_read_index (m_write_confirmer q') \<and>
         get (m_buffer_fanout q') (m_tail_handle h) = Inr x \<and>
         cells (m_handles q'') p' = Some (h\<lparr>m_tail_handle := m_tail_handle h + 1\<rparr>)))"
proof -
  have part1: "cells (m_handles q1) p
        = Some \<lparr>m_tail_handle = get_read_index (m_write_confirmer q), m_subscribed = True\<rparr> \<and>
      m_write_confirmer q1 = m_write_confirmer q \<and>
      m_buffer_fanout q1 = m_buffer_fanout q \<and>
      subscription_handle_pop p out q1 = Inr (False, out, q1)"
    if s: "subscribe q = (p, q1)"
  proof -
    note h = subscribe_handle [OF s]
    have "subscription_handle_pop p out q1 = Inr (False, out, q1)"
      by (rule handle_pop_empty [OF h(1)]) (simp add: h(2))
    with h show ?thesis by simp
  qed
  have part2: "\<exists>q3. subscription_handle_pop p out q2 = Inr (True, v, q3) \<and>
            cells (m_handles q3) p
              = Some \<lparr>m_tail_handle = get_read_index (m_write_confirmer q) + 1,
                      m_subscribed = True\<rparr>"
    if s: "subscribe q = (p, q1)"
      and quiet: "m_write_head (m_write_confirmer q) = m_read_head (m_write_confirmer q)"
      and nowrap: "m_read_head (m_write_confirmer q) + 1 \<noteq> 0"
      and push: "mpmc_push sched v q1 = Inr q2"
  proof -
    note h = subscribe_handle [OF s]
    let ?r = "m_read_head (m_write_confirmer q)"
    let ?h = "\<lparr>m_tail_handle = get_read_index (m_write_confirmer q), m_subscribed = True\<rparr>"
    from quiet nowrap have quiet1: "m_write_head (m_write_confirmer q1) = m_read_head (m_write_confirmer q1)"
      and nowrap1: "m_read_head (m_write_confirmer q1) + 1 \<noteq> 0" by (simp_all add: h(2))
    note e = mpmc_push_quiescent [OF push quiet1 nowrap1]
    have c: "cells (m_handles q2) p = Some ?h" using h(1) e(4) by simp
    have ne: "\<not> get_read_index (m_write_confirmer q2) \<le> m_tail_handle ?h"
      using e(2) nowrap no_wrap_not_le [of ?r] by (simp add: get_read_index_def h(2))
    have g: "get (m_buffer_fanout q2) (m_tail_handle ?h) = Inr v"
      using e(1) by (simp add: get_read_index_def h(2))
    from handle_pop_element [OF c ne g, of out] show ?thesis by simp
  qed
  from part1 part2 handle_pop_True [of p' out q' x q''] show ?thesis by blast
qed


text \<open>
  The witness is the late-subscription scenario on \<open>mpmc_fanout<int> q(1, 8)\<close>: push
  0 to 4, subscribe, \<open>pop\<close> returns false, push 42, \<open>pop\<close> returns true with 42.
\<close>

theorem C7_late_subscription_witness:
  "\<exists>q0 d evs q q1 q2 q3.
     mpmc_fanout_ctor pow2 4 (0::int) 1 8 () daemon_ctor = Some (q0, d) \<and>
     fanout_run [Fanout_push [] 0, Fanout_push [] 1, Fanout_push [] 2, Fanout_push [] 3,
                 Fanout_push [] 4] 99 q0 = Inr (evs, q) \<and>
     m_write_head (m_write_confirmer q) = m_read_head (m_write_confirmer q) \<and>
     m_read_head (m_write_confirmer q) + 1 \<noteq> 0 \<and>
     subscribe q = (0, q1) \<and>
     cells (m_handles q1) 0 = Some \<lparr>m_tail_handle = 5, m_subscribed = True\<rparr> \<and>
     subscription_handle_pop 0 99 q1 = Inr (False, 99, q1) \<and>
     mpmc_push [] 42 q1 = Inr q2 \<and>
     subscription_handle_pop 0 99 q2 = Inr (True, 42, q3) \<and>
     fanout_run [Fanout_push [] 0, Fanout_push [] 1, Fanout_push [] 2, Fanout_push [] 3,
                 Fanout_push [] 4, Subscribe, Handle_pop 0, Fanout_push [] 42, Handle_pop 0]
       99 q0
     = Inr ([Pushed, Pushed, Pushed, Pushed, Pushed, Subscribed 0, Popped False 99, Pushed,
             Popped True 42], q3)"
proof -
  let ?fresh = "\<lparr>m_buffer_fanout = \<lparr>line_elements = 16, m_lines = [replicate 16 (0::int)],
        m_mod_index = mod_indexer_pow2 0, m_div_index = div_indexer_pow2 0,
        m_mod_index2 = mod_indexer_pow2 15\<rparr>,
      m_write_confirmer = write_confirm_ctor,
      m_min_tail = 0, m_capacity_fanout = 16, m_free_capacity_needed_fanout = 15,
      m_subscriptions = [], m_handles = store_empty, m_callback_key = 0\<rparr>"
  let ?d = "snd (add_callback () daemon_ctor)"
  let ?filled = "\<lparr>line_elements = 16,
        m_lines = [(replicate 16 (0::int))[0 := 0, 1 := 1, 2 := 2, 3 := 3, 4 := 4]],
        m_mod_index = mod_indexer_pow2 0, m_div_index = div_indexer_pow2 0,
        m_mod_index2 = mod_indexer_pow2 15\<rparr>"
  let ?q = "\<lparr>m_buffer_fanout = ?filled,
      m_write_confirmer = \<lparr>m_write_head = 5, m_read_head = 5\<rparr>,
      m_min_tail = 0, m_capacity_fanout = 16, m_free_capacity_needed_fanout = 15,
      m_subscriptions = [], m_handles = store_empty, m_callback_key = 0\<rparr>"
  let ?subscribed = "?q\<lparr>m_handles := \<lparr>cells = [0 \<mapsto> \<lparr>m_tail_handle = 5, m_subscribed = True\<rparr>],
        next_free = 1\<rparr>, m_subscriptions := [0]\<rparr>"
  let ?pushes = "[Fanout_push [] 0, Fanout_push [] 1, Fanout_push [] 2, Fanout_push [] 3,
                 Fanout_push [] (4::int)]"
  note eval = mpmc_push_def mpmc_get_free_index_def mpmc_update_read_head_def
        confirm_write_def compare_exchange_weak_def get_write_index_def get_read_index_def
        write_confirm_ctor_def store_new_def store_empty_def subscribe_def
        subscription_handle_ctor_def subscription_handle_pop_def
        put_def get_def cell_def word_le_nat_alt
  have bctor: "false_sharing_optimized_buffer_ctor pow2 4 (0::int) 1 8
      = Some (m_buffer_fanout ?fresh)"
    by code_simp
  have ctor: "mpmc_fanout_ctor pow2 4 (0::int) 1 8 () daemon_ctor = Some (?fresh, ?d)"
    using bctor
    by (simp add: mpmc_fanout_ctor_def add_callback_def daemon_ctor_def buffer_size_def
        number_of_cache_lines_def)
  have run: "fanout_run ?pushes 99 ?fresh = Inr ([Pushed, Pushed, Pushed, Pushed, Pushed], ?q)"
    by (simp add: eval)
  have quiet: "m_write_head (m_write_confirmer ?q) = m_read_head (m_write_confirmer ?q)"
    by simp
  have nowrap: "m_read_head (m_write_confirmer ?q) + 1 \<noteq> 0" by simp
  have sub: "subscribe ?q = (0, ?subscribed)"
    by (simp add: eval)
  let ?refilled = "\<lparr>line_elements = 16,
        m_lines = [(replicate 16 (0::int))[0 := 0, 1 := 1, 2 := 2, 3 := 3, 4 := 4, 5 := 42]],
        m_mod_index = mod_indexer_pow2 0, m_div_index = div_indexer_pow2 0,
        m_mod_index2 = mod_indexer_pow2 15\<rparr>"
  let ?pushed = "?subscribed\<lparr>m_buffer_fanout := ?refilled,
      m_write_confirmer := \<lparr>m_write_head = 6, m_read_head = 6\<rparr>\<rparr>"
  let ?popped = "?pushed\<lparr>m_handles := \<lparr>cells = [0 \<mapsto> \<lparr>m_tail_handle = 6, m_subscribed = True\<rparr>],
        next_free = 1\<rparr>\<rparr>"
  have push: "mpmc_push [] 42 ?subscribed = Inr ?pushed"
    by (simp add: eval)
  note inst = C7_late_subscription
    [where q = ?q and p = 0 and ?q1.0 = ?subscribed and out = 99 and sched = "[]"
       and v = 42 and ?q2.0 = ?pushed]
  from inst sub have handle: "cells (m_handles ?subscribed) 0
      = Some \<lparr>m_tail_handle = get_read_index (m_write_confirmer ?q), m_subscribed = True\<rparr>"
    and pop1: "subscription_handle_pop 0 99 ?subscribed = Inr (False, 99, ?subscribed)"
    by blast+
  from inst sub quiet nowrap push obtain q3 where
    pop2: "subscription_handle_pop 0 99 ?pushed = Inr (True, 42, q3)"
    by blast
  have "subscription_handle_pop 0 99 ?pushed = Inr (True, 42, ?popped)"
    by (simp add: eval)
  with pop2 have q3: "q3 = ?popped" by simp
  from handle have handle5: "cells (m_handles ?subscribed) 0
      = Some \<lparr>m_tail_handle = 5, m_subscribed = True\<rparr>"
    by (simp add: get_read_index_def)
  have whole: "fanout_run [Fanout_push [] 0, Fanout_push [] 1, Fanout_push [] 2,
        Fanout_push [] 3, Fanout_push [] 4, Subscribe, Handle_pop 0, Fanout_push [] 42,
        Handle_pop 0] 99 ?fresh
     = Inr ([Pushed, Pushed, Pushed, Pushed, Pushed, Subscribed 0, Popped False 99, Pushed,
             Popped True 42], q3)"
    unfolding q3 by (simp add: eval)
  from ctor run quiet nowrap sub handle5 pop1 push pop2 whole show ?thesis
    by (intro exI [of _ ?fresh] exI [of _ ?d] exI [of _ "[Pushed, Pushed, Pushed, Pushed, Pushed]"]
        exI [of _ ?q] exI [of _ ?subscribed] exI [of _ ?pushed] exI [of _ q3] conjI)
qed

subsection \<open>The daemon callback\<close>

lemma update_min_tail_loop_result:
  assumes "distinct ps" and "\<forall>p\<in>set ps. cells st p \<noteq> None"
  shows "update_min_tail_loop ps m st =
     Inr (foldl min m (map (\<lambda>p. get_tail (the (cells st p))) (filter (live st) ps)),
          filter (live st) ps,
          st\<lparr>cells := (\<lambda>p. if p \<in> set ps \<and> \<not> live st p then None else cells st p)\<rparr>)"
  using assms
proof (induction ps arbitrary: m st)
  case Nil
  then show ?case by simp
next
  case (Cons p ps)
  from Cons.prems obtain h where h: "cells st p = Some h" by auto
  from Cons.prems have d: "distinct ps" and notin: "p \<notin> set ps"
    and valid: "\<forall>p\<in>set ps. cells st p \<noteq> None" by auto
  show ?case
  proof (cases "subscribed h")
    case True
    then have lp: "live st p" by (simp add: live_def h)
    have "st\<lparr>cells := (\<lambda>x. if x \<in> set ps \<and> \<not> live st x then None else cells st x)\<rparr>
        = st\<lparr>cells := (\<lambda>x. if x \<in> set (p # ps) \<and> \<not> live st x then None else cells st x)\<rparr>"
      using lp by (auto intro!: arg_cong [where f = "\<lambda>c. st\<lparr>cells := c\<rparr>"])
    with Cons.IH [OF d valid, of "min m (get_tail h)"] True h lp
    show ?thesis by simp
  next
    case False
    then have lp: "\<not> live st p" by (simp add: live_def h)
    let ?st = "store_free p st"
    have same: "cells ?st x = cells st x" if "x \<in> set ps" for x
      using that notin by (auto simp: store_free_def)
    then have valid': "\<forall>x\<in>set ps. cells ?st x \<noteq> None" using valid by simp
    have live': "live ?st x = live st x" if "x \<in> set ps" for x
      using same [OF that] by (simp add: live_def)
    then have f: "filter (live ?st) ps = filter (live st) ps"
      by (intro filter_cong) auto
    have t: "map (\<lambda>x. get_tail (the (cells ?st x))) (filter (live st) ps)
        = map (\<lambda>x. get_tail (the (cells st x))) (filter (live st) ps)"
      by (intro map_cong) (auto simp: same)
    have c: "?st\<lparr>cells := (\<lambda>x. if x \<in> set ps \<and> \<not> live ?st x then None else cells ?st x)\<rparr>
        = st\<lparr>cells := (\<lambda>x. if x \<in> set (p # ps) \<and> \<not> live st x then None else cells st x)\<rparr>"
    proof -
      have "(\<lambda>x. if x \<in> set ps \<and> \<not> live ?st x then None else cells ?st x)
          = (\<lambda>x. if x \<in> set (p # ps) \<and> \<not> live st x then None else cells st x)"
      proof
        fix x
        show "(if x \<in> set ps \<and> \<not> live ?st x then None else cells ?st x)
            = (if x \<in> set (p # ps) \<and> \<not> live st x then None else cells st x)"
        proof (cases "x = p")
          case True
          with lp notin show ?thesis by (simp add: store_free_def)
        next
          case False
          then have "cells ?st x = cells st x" by (simp add: store_free_def)
          with False live' [of x] show ?thesis by auto
        qed
      qed
      then show ?thesis by (simp add: store_free_def)
    qed
    from Cons.IH [OF d valid', of m] False h lp
    show ?thesis by (simp add: f t c)
  qed
qed

lemma foldl_min_Min:
  fixes m :: "'a::linorder"
  shows "foldl min m xs = Min (insert m (set xs))"
proof (induction xs arbitrary: m)
  case Nil
  then show ?case by simp
next
  case (Cons x xs)
  have "foldl min m (x # xs) = Min (insert (min m x) (set xs))"
    using Cons.IH [of "min m x"] by simp
  also have "\<dots> = Min (insert m (insert x (set xs)))"
    by (cases "set xs = {}") (auto simp: min.commute min.left_commute min.assoc)
  finally show ?case by simp
qed


lemma live_tails:
  "set (map (\<lambda>p. get_tail (the (cells st p))) (filter (live st) ps))
     = {get_tail h |p h. p \<in> set ps \<and> cells st p = Some h \<and> subscribed h}"
proof (intro set_eqI iffI)
  fix t
  assume "t \<in> set (map (\<lambda>p. get_tail (the (cells st p))) (filter (live st) ps))"
  then obtain p where p: "p \<in> set ps" "live st p" "t = get_tail (the (cells st p))" by auto
  from p(2) obtain h where "cells st p = Some h" "subscribed h"
    by (auto simp: live_def split: option.splits)
  with p show "t \<in> {get_tail h |p h. p \<in> set ps \<and> cells st p = Some h \<and> subscribed h}"
    by auto
next
  fix t
  assume "t \<in> {get_tail h |p h. p \<in> set ps \<and> cells st p = Some h \<and> subscribed h}"
  then obtain p h where p: "p \<in> set ps" "cells st p = Some h" "subscribed h" "t = get_tail h"
    by auto
  then have "live st p" by (simp add: live_def)
  with p have "p \<in> set (filter (live st) ps)" "t = get_tail (the (cells st p))" by simp_all
  then show "t \<in> set (map (\<lambda>p. get_tail (the (cells st p))) (filter (live st) ps))"
    by (simp only: set_map) (rule imageI)
qed

text \<open>
  Claim C8.  In a queue whose subscription list holds distinct, allocated handles (as a
  vector of \<open>unique_ptr\<close> does), \<open>update_min_tail\<close> returns, and afterwards:
  \<open>m_min_tail\<close> is the minimum of the barrier's read index and the tails of the handles
  of the list that are still subscribed; the list is the old list without the
  unsubscribed handles, in the old order, so every handle it holds is subscribed; every
  unsubscribed handle of the old list is gone from the list and destroyed; the subscribed
  handles, the barrier and the buffer are untouched.  When no handle of the list is
  subscribed, \<open>m_min_tail\<close> is the read index, the list is empty and \<open>size()\<close> is 0.
\<close>

theorem C8_update_min_tail:
  assumes "distinct (m_subscriptions q)"
    and "\<forall>p\<in>set (m_subscriptions q). cells (m_handles q) p \<noteq> None"
  shows "\<exists>q'. update_min_tail q = Inr q' \<and>
     m_min_tail q' = Min (insert (get_read_index (m_write_confirmer q))
        {get_tail h |p h. p \<in> set (m_subscriptions q) \<and> cells (m_handles q) p = Some h \<and>
                          subscribed h}) \<and>
     m_subscriptions q' = filter (live (m_handles q)) (m_subscriptions q) \<and>
     (\<forall>p\<in>set (m_subscriptions q'). live (m_handles q') p) \<and>
     (\<forall>p\<in>set (m_subscriptions q). \<not> live (m_handles q) p \<longrightarrow>
        p \<notin> set (m_subscriptions q') \<and> cells (m_handles q') p = None) \<and>
     (\<forall>p. live (m_handles q) p \<longrightarrow> cells (m_handles q') p = cells (m_handles q) p) \<and>
     ((\<forall>p\<in>set (m_subscriptions q). \<not> live (m_handles q) p) \<longrightarrow>
        m_min_tail q' = get_read_index (m_write_confirmer q) \<and> m_subscriptions q' = [] \<and>
        mpmc_size q' = 0) \<and>
     m_write_confirmer q' = m_write_confirmer q \<and>
     m_buffer_fanout q' = m_buffer_fanout q"
proof -
  let ?ps = "m_subscriptions q" and ?st = "m_handles q"
  let ?r = "get_read_index (m_write_confirmer q)"
  let ?tails = "map (\<lambda>p. get_tail (the (cells ?st p))) (filter (live ?st) ?ps)"
  let ?st' = "?st\<lparr>cells := (\<lambda>p. if p \<in> set ?ps \<and> \<not> live ?st p then None else cells ?st p)\<rparr>"
  let ?q' = "q\<lparr>m_subscriptions := filter (live ?st) ?ps, m_handles := ?st',
               m_min_tail := foldl min ?r ?tails\<rparr>"
  have run: "update_min_tail q = Inr ?q'"
    unfolding update_min_tail_def
    by (simp add: update_min_tail_loop_result [OF assms])
  have min: "m_min_tail ?q' = Min (insert ?r
        {get_tail h |p h. p \<in> set ?ps \<and> cells ?st p = Some h \<and> subscribed h})"
    by (simp add: foldl_min_Min live_tails del: set_map set_filter)
  have live_kept: "live ?st' p = live ?st p" for p
    by (simp add: live_def)
  have kept: "\<forall>p\<in>set (m_subscriptions ?q'). live (m_handles ?q') p"
    using live_kept by simp
  have gone: "\<forall>p\<in>set ?ps. \<not> live ?st p \<longrightarrow>
        p \<notin> set (m_subscriptions ?q') \<and> cells (m_handles ?q') p = None"
    by simp
  have same: "\<forall>p. live ?st p \<longrightarrow> cells (m_handles ?q') p = cells ?st p"
    by simp
  have none: "m_min_tail ?q' = ?r \<and> m_subscriptions ?q' = [] \<and> mpmc_size ?q' = 0"
    if "\<forall>p\<in>set ?ps. \<not> live ?st p"
  proof -
    from that have "filter (live ?st) ?ps = []" by (simp add: filter_empty_conv)
    then show ?thesis by (simp add: mpmc_size_def)
  qed
  from run min kept gone same none show ?thesis
    by (intro exI [of _ ?q']) simp
qed


text \<open>
  The witness is \<open>mpmc_fanout<int> q(1, 8)\<close> after three pushes with three
  subscriptions in between: handle 0 has popped once (tail 1), handle 1 (tail 2) has
  unsubscribed, handle 2 has tail 3, the read index is 3.  The callback publishes 1,
  keeps handles 0 and 2 and destroys handle 1.
\<close>

theorem C8_update_min_tail_witness:
  "\<exists>q0 d evs q q'.
     mpmc_fanout_ctor pow2 4 (0::int) 1 8 () daemon_ctor = Some (q0, d) \<and>
     fanout_run [Subscribe, Fanout_push [] 10, Fanout_push [] 11, Subscribe,
                 Fanout_push [] 12, Handle_pop 0, Subscribe, Unsubscribe 1] 0 q0 = Inr (evs, q) \<and>
     m_subscriptions q = [0, 1, 2] \<and>
     distinct (m_subscriptions q) \<and>
     list_all (\<lambda>p. cells (m_handles q) p \<noteq> None) (m_subscriptions q) \<and>
     get_read_index (m_write_confirmer q) = 3 \<and>
     update_min_tail q = Inr q' \<and>
     m_min_tail q' = 1 \<and>
     m_subscriptions q' = [0, 2] \<and>
     cells (m_handles q') 1 = None"
proof -
  let ?buffer = "\<lparr>line_elements = 16, m_lines = [replicate 16 (0::int)],
      m_mod_index = mod_indexer_pow2 0, m_div_index = div_indexer_pow2 0,
      m_mod_index2 = mod_indexer_pow2 15\<rparr>"
  let ?fresh = "\<lparr>m_buffer_fanout = ?buffer, m_write_confirmer = write_confirm_ctor,
      m_min_tail = 0, m_capacity_fanout = 16, m_free_capacity_needed_fanout = 15,
      m_subscriptions = [], m_handles = store_empty, m_callback_key = 0\<rparr>"
  let ?d = "snd (add_callback () daemon_ctor)"
  let ?calls = "[Subscribe, Fanout_push [] 10, Fanout_push [] 11, Subscribe,
                 Fanout_push [] 12, Handle_pop 0, Subscribe, Unsubscribe 1]"
  have bctor: "false_sharing_optimized_buffer_ctor pow2 4 (0::int) 1 8 = Some ?buffer"
    by code_simp
  have ctor: "mpmc_fanout_ctor pow2 4 (0::int) 1 8 () daemon_ctor = Some (?fresh, ?d)"
    by (simp add: mpmc_fanout_ctor_def bctor add_callback_def daemon_ctor_def buffer_size_def
        number_of_cache_lines_def)
  obtain evs q where run: "fanout_run ?calls 0 ?fresh = Inr (evs, q)"
    and subs: "m_subscriptions q = [0, 1, 2]"
    and c0: "cells (m_handles q) 0 = Some \<lparr>m_tail_handle = 1, m_subscribed = True\<rparr>"
    and c1: "cells (m_handles q) 1 = Some \<lparr>m_tail_handle = 2, m_subscribed = False\<rparr>"
    and c2: "cells (m_handles q) 2 = Some \<lparr>m_tail_handle = 3, m_subscribed = True\<rparr>"
    and r: "get_read_index (m_write_confirmer q) = 3"
    by (simp add: mpmc_push_def mpmc_get_free_index_def mpmc_update_read_head_def
        confirm_write_def compare_exchange_weak_def get_write_index_def get_read_index_def
        write_confirm_ctor_def store_new_def store_empty_def subscribe_def
        subscription_handle_ctor_def subscription_handle_pop_def unsubscribe_def
        put_def get_def cell_def word_le_nat_alt)
  have d: "distinct (m_subscriptions q)" unfolding subs by simp
  have v: "\<forall>p\<in>set (m_subscriptions q). cells (m_handles q) p \<noteq> None"
    unfolding subs using c0 c1 c2 by simp
  have lv: "live (m_handles q) 0" "\<not> live (m_handles q) 1" "live (m_handles q) 2"
    using c0 c1 c2 by (simp_all add: live_def subscribed_def)
  from C8_update_min_tail [OF d v] obtain q' where
    u: "update_min_tail q = Inr q'"
    and m: "m_min_tail q' = Min (insert (get_read_index (m_write_confirmer q))
        {get_tail h |p h. p \<in> set (m_subscriptions q) \<and> cells (m_handles q) p = Some h \<and>
                          subscribed h})"
    and f: "m_subscriptions q' = filter (live (m_handles q)) (m_subscriptions q)"
    and g: "\<forall>p\<in>set (m_subscriptions q). \<not> live (m_handles q) p \<longrightarrow>
        p \<notin> set (m_subscriptions q') \<and> cells (m_handles q') p = None"
    by blast
  have "{get_tail h |p h. p \<in> set (m_subscriptions q) \<and> cells (m_handles q) p = Some h \<and>
                          subscribed h} = {1, 3}"
  proof (intro set_eqI iffI)
    fix t
    assume "t \<in> {get_tail h |p h. p \<in> set (m_subscriptions q) \<and>
        cells (m_handles q) p = Some h \<and> subscribed h}"
    then show "t \<in> {1, 3}"
      unfolding subs using c0 c1 c2 by (auto simp: get_tail_def subscribed_def)
  next
    fix t :: uint64_t
    assume "t \<in> {1, 3}"
    then consider "t = 1" | "t = 3" by auto
    then show "t \<in> {get_tail h |p h. p \<in> set (m_subscriptions q) \<and>
        cells (m_handles q) p = Some h \<and> subscribed h}"
    proof cases
      case 1
      with c0 subs show ?thesis
        by (auto simp: get_tail_def subscribed_def
            intro!: exI [of _ 0] exI [of _ "\<lparr>m_tail_handle = 1, m_subscribed = True\<rparr>"])
    next
      case 2
      with c2 subs show ?thesis
        by (auto simp: get_tail_def subscribed_def
            intro!: exI [of _ 2] exI [of _ "\<lparr>m_tail_handle = 3, m_subscribed = True\<rparr>"])
    qed
  qed
  with m r have m1: "m_min_tail q' = 1" by simp
  from f lv have f1: "m_subscriptions q' = [0, 2]" unfolding subs by simp
  from g lv subs have g1: "cells (m_handles q') 1 = None" by simp
  from v have v': "list_all (\<lambda>p. cells (m_handles q) p \<noteq> None) (m_subscriptions q)"
    by (simp add: list_all_iff)
  from ctor run subs d v' r u m1 f1 g1 show ?thesis by blast
qed

section \<open>The callback registry\<close>

lemma remove_callback_absent:
  "m_callbacks d key = None \<Longrightarrow> remove_callback key d = d"
  by (simp add: remove_callback_def)

lemma remove_callback_present:
  "m_callbacks d key = Some f \<Longrightarrow>
   remove_callback key d = d\<lparr>m_callbacks := (m_callbacks d)(key := None)\<rparr>"
  by (simp add: remove_callback_def)

lemma remove_callback_other:
  "k \<noteq> key \<Longrightarrow> m_callbacks (remove_callback key d) k = m_callbacks d k"
  by (simp add: remove_callback_def)

text \<open>
  Claim C9.  \<open>remove_callback key\<close> with a key that is not registered returns the
  registry as it was, the whole object: the callbacks, the key generator and the run
  flag.  With a registered key it removes the entry of that key and no other: afterwards
  the key is unregistered, the set of registered keys has lost exactly that key, every
  other key is bound to the callback it was bound to, and the key generator and the run
  flag are untouched.  The function returns a registry in both cases: there is no error
  result.
\<close>

theorem C9_remove_callback:
  "(m_callbacks d key = None \<longrightarrow> remove_callback key d = d) \<and>
   (m_callbacks d key \<noteq> None \<longrightarrow>
      m_callbacks (remove_callback key d) key = None \<and>
      dom (m_callbacks (remove_callback key d)) = dom (m_callbacks d) - {key} \<and>
      (\<forall>k. k \<noteq> key \<longrightarrow> m_callbacks (remove_callback key d) k = m_callbacks d k) \<and>
      m_next_callback (remove_callback key d) = m_next_callback d \<and>
      m_should_run (remove_callback key d) = m_should_run d)"
  by (auto simp: remove_callback_def)

text \<open>
  The witness registers two callbacks in a fresh registry (keys 0 and 1), removes the
  absent key 7 and then the present key 0.
\<close>

theorem C9_remove_callback_witness:
  "m_callbacks (snd (add_callback ''b'' (snd (add_callback ''a'' daemon_ctor)))) 7 = None \<and>
   remove_callback 7 (snd (add_callback ''b'' (snd (add_callback ''a'' daemon_ctor))))
     = snd (add_callback ''b'' (snd (add_callback ''a'' daemon_ctor))) \<and>
   m_callbacks (snd (add_callback ''b'' (snd (add_callback ''a'' daemon_ctor)))) 0 = Some ''a'' \<and>
   m_callbacks (remove_callback 0 (snd (add_callback ''b'' (snd (add_callback ''a'' daemon_ctor))))) 0
     = None \<and>
   m_callbacks (remove_callback 0 (snd (add_callback ''b'' (snd (add_callback ''a'' daemon_ctor))))) 1
     = Some ''b''"
proof -
  let ?d = "snd (add_callback ''b'' (snd (add_callback ''a'' daemon_ctor)))"
  have absent: "m_callbacks ?d 7 = None"
    by (simp add: add_callback_def daemon_ctor_def)
  have present: "m_callbacks ?d 0 = Some ''a''"
    by (simp add: add_callback_def daemon_ctor_def)
  have other: "m_callbacks ?d 1 = Some ''b''"
    by (simp add: add_callback_def daemon_ctor_def)
  from C9_remove_callback [of ?d 7] absent
  have a: "remove_callback 7 ?d = ?d" by blast
  from C9_remove_callback [of ?d 0] present
  have b: "m_callbacks (remove_callback 0 ?d) 0 = None"
    and c: "\<forall>k. k \<noteq> 0 \<longrightarrow> m_callbacks (remove_callback 0 ?d) k = m_callbacks ?d k"
    by auto
  from c have "m_callbacks (remove_callback 0 ?d) 1 = m_callbacks ?d 1" by simp
  with other have d: "m_callbacks (remove_callback 0 ?d) 1 = Some ''b''" by simp
  from absent a present b d show ?thesis by blast
qed

end
